theory Spec2Isabelle
  imports Main "HOL-Library.List_Lexorder"
begin

section \<open>Python values\<close>

text \<open>
  A \<^verbatim>\<open>bytes\<close> object is a list of bytes (\<^typ>\<open>char\<close> is the 8-bit byte), a
  \<^verbatim>\<open>memoryview\<close> of a slice is the list of the bytes it shows, a \<^verbatim>\<open>str\<close> is the
  list of its code points, and Python's unbounded integers are \<^typ>\<open>int\<close>.
\<close>

type_synonym bytes = string
type_synonym pystr = "nat list"

definition str :: "string \<Rightarrow> pystr" where
  "str s = map of_char s"

definition py_len :: "'a list \<Rightarrow> int" where
  "py_len xs = int (length xs)"

text \<open>Slice bounds as Python normalises them: a negative bound counts from the end, and
  both bounds are clamped to the length.\<close>

definition clamp_index :: "int \<Rightarrow> int \<Rightarrow> int" where
  "clamp_index n i = (if i < 0 then max 0 (n + i) else min i n)"

definition slice :: "'a list \<Rightarrow> int \<Rightarrow> int \<Rightarrow> 'a list" where
  "slice xs s e =
     (let n = py_len xs; a = clamp_index n s; b = clamp_index n e
      in take (nat (b - a)) (drop (nat a) xs))"

text \<open>\<^verbatim>\<open>data.find(b, start, end)\<close> for a single byte: the lowest index in the slice
  at which the byte stands, or \<open>-1\<close>.\<close>

fun find_first :: "(char \<Rightarrow> bool) \<Rightarrow> bytes \<Rightarrow> int \<Rightarrow> int" where
  "find_first p [] k = - 1"
| "find_first p (x # xs) k = (if p x then k else find_first p xs (k + 1))"

fun find_last :: "(char \<Rightarrow> bool) \<Rightarrow> bytes \<Rightarrow> int \<Rightarrow> int" where
  "find_last p [] k = - 1"
| "find_last p (x # xs) k =
     (let r = find_last p xs (k + 1) in if r < 0 \<and> p x then k else r)"

definition py_find :: "bytes \<Rightarrow> char \<Rightarrow> int \<Rightarrow> int \<Rightarrow> int" where
  "py_find data c s e = find_first (\<lambda>x. x = c) (slice data s e) (clamp_index (py_len data) s)"

text \<open>The bytes that \<^verbatim>\<open>bytes.strip()\<close> and \<^verbatim>\<open>bytes.split()\<close> treat as whitespace,
  and \<^verbatim>\<open>bytes.lower()\<close>, which maps the ASCII capitals only.\<close>

definition py_space :: "char \<Rightarrow> bool" where
  "py_space c = (c \<in> {CHR '' '', CHR 0x09, CHR 0x0A, CHR 0x0B, CHR 0x0C, CHR 0x0D})"

definition strip :: "bytes \<Rightarrow> bytes" where
  "strip b = rev (dropWhile py_space (rev (dropWhile py_space b)))"

definition lower_byte :: "char \<Rightarrow> char" where
  "lower_byte c =
     (let n = (of_char c :: nat) in if 65 \<le> n \<and> n \<le> 90 then char_of (n + 32) else c)"

definition lower :: "bytes \<Rightarrow> bytes" where
  "lower b = map lower_byte b"

section \<open>Lines of a message\<close>

text \<open>A line is the triple \<open>(start, end, next_start)\<close> of \<^verbatim>\<open>pymap/mime/__init__.py\<close>:
  the line's bytes are \<open>data[start:end]\<close>, its terminator is \<open>data[end:next_start]\<close>.\<close>

type_synonym line = "int \<times> int \<times> int"

text \<open>
  Modelled from the spec: \<^verbatim>\<open>whitespace\<close>, \<^verbatim>\<open>find_any\<close> and \<^verbatim>\<open>get_raw\<close> are imported from
  \<^verbatim>\<open>pymap/mime/_util.py\<close>, which is not among the sources. The specification speaks of
  lines that are "empty or whitespace-only" and of a "first byte [that] is whitespace"
  without listing the bytes; they are taken to be the ASCII whitespace bytes.
\<close>

definition whitespace :: "char set" where
  "whitespace = {CHR '' '', CHR 0x09, CHR 0x0A, CHR 0x0B, CHR 0x0C, CHR 0x0D}"

text \<open>
  Modelled from the spec: the one call, \<^verbatim>\<open>find_any(data, whitespace, start, end, False, False)\<close>
  in \<^verbatim>\<open>_split_lines\<close>, is negative for the lines that the specification calls "empty or
  whitespace-only". The model returns an index into \<open>data[start:end]\<close> of a byte whose
  membership in \<open>chars\<close> is as the last flag says, or \<open>-1\<close> when there is none; the first of
  the two flags is read as the direction of the search (backwards when set).
\<close>

definition find_any :: "bytes \<Rightarrow> char set \<Rightarrow> int \<Rightarrow> int \<Rightarrow> bool \<Rightarrow> bool \<Rightarrow> int" where
  "find_any data chars start end' backwards member' =
     (if backwards
      then find_last (\<lambda>x. (x \<in> chars) = member') (slice data start end')
             (clamp_index (py_len data) start)
      else find_first (\<lambda>x. (x \<in> chars) = member') (slice data start end')
             (clamp_index (py_len data) start))"

text \<open>
  Modelled from the spec: \<^verbatim>\<open>get_raw(data, *lines)\<close> gives the "raw byte view" of a
  region of the message, here the bytes from the start of the first line of the first
  group of lines to the \<open>next_start\<close> of the last line of the last group. The terminator
  of the last line is part of the region: the specification's scenarios count 158 octets
  for a message, 108 for its "header section plus the terminating blank-line CRLF" and,
  in the test of \<open>RFC822.TEXT\<close>, 50 for its body. A group with no line has no first and
  no last line, and the view is empty when the first or the last group has no line. The
  specification does not speak of a call with several groups of which the first or the
  last has no line: the properties below say what the raw buffer of a content is only
  where its header lines and its body lines are both present.
\<close>

definition get_raw :: "bytes \<Rightarrow> line list list \<Rightarrow> bytes" where
  "get_raw data groups =
     (if groups = [] \<or> hd groups = [] \<or> last groups = [] then []
      else slice data (fst (hd (hd groups))) (snd (snd (last (last groups)))))"

subsection \<open>\<^verbatim>\<open>MessageContent._find_lines\<close>\<close>

text \<open>The \<open>while True\<close> loop of \<^verbatim>\<open>_find_lines\<close>, with \<open>start\<close> and \<open>ret\<close> as its state; the
  source's \<open>end\<close> is written \<open>end'\<close> here and below. The loop stops because every line
  feed found lies at or after \<open>start\<close> and before the end of the data, which the lemmas
  before the definition show. The read \<open>data[idx_minus_1]\<close> is guarded by
  \<open>idx_minus_1 >= start\<close>, and \<open>start\<close> is never negative.\<close>

lemma find_first_range:
  "0 \<le> k \<Longrightarrow> 0 \<le> find_first p xs k \<Longrightarrow>
     k \<le> find_first p xs k \<and> find_first p xs k < k + int (length xs)"
proof (induction xs arbitrary: k)
  case Nil
  then show ?case by simp
next
  case (Cons x xs)
  show ?case
  proof (cases "p x")
    case True
    then show ?thesis by simp
  next
    case False
    with Cons.prems have "0 \<le> k + 1" and "0 \<le> find_first p xs (k + 1)" by simp_all
    from Cons.IH [OF this] False show ?thesis by simp
  qed
qed

lemma clamp_index_range: "0 \<le> n \<Longrightarrow> 0 \<le> clamp_index n i \<and> clamp_index n i \<le> n"
  by (simp add: clamp_index_def)

lemma length_slice:
  "int (length (slice xs s e)) =
     max 0 (clamp_index (py_len xs) e - clamp_index (py_len xs) s)"
proof -
  have "0 \<le> clamp_index (py_len xs) s" "clamp_index (py_len xs) e \<le> py_len xs"
    using clamp_index_range [of "py_len xs"] by (simp_all add: py_len_def)
  then show ?thesis
    by (auto simp: slice_def Let_def py_len_def)
qed

lemma py_find_range:
  assumes "0 \<le> py_find data c s e"
  shows "s \<le> py_find data c s e" and "py_find data c s e < py_len data"
    and "clamp_index (py_len data) s \<le> py_find data c s e"
    and "py_find data c s e < clamp_index (py_len data) e"
proof -
  let ?n = "py_len data"
  have n: "0 \<le> ?n" by (simp add: py_len_def)
  have a: "0 \<le> clamp_index ?n s" using clamp_index_range [OF n] by simp
  from assms have "0 \<le> find_first (\<lambda>x. x = c) (slice data s e) (clamp_index ?n s)"
    by (simp add: py_find_def)
  from find_first_range [OF a this]
  have r: "clamp_index ?n s \<le> py_find data c s e"
    "py_find data c s e < clamp_index ?n s + int (length (slice data s e))"
    by (simp_all add: py_find_def)
  from r(1) show "clamp_index ?n s \<le> py_find data c s e" .
  from r(2) assms r(1) show "py_find data c s e < clamp_index ?n e"
    by (simp add: length_slice split: if_splits)
  with clamp_index_range [OF n, of e] show "py_find data c s e < py_len data" by simp
  with r(1) show "s \<le> py_find data c s e"
    by (simp add: clamp_index_def split: if_splits)
qed

function find_lines_loop :: "bytes \<Rightarrow> int \<Rightarrow> line list \<Rightarrow> line list" where
  "find_lines_loop data start ret =
     (let end' = py_len data;
          idx = py_find data (CHR 0x0A) start end'
      in if idx < 0 then ret @ [(start, end', end')]
         else
           let next_start = idx + 1;
               idx_minus_1 = idx - 1;
               idx' = (if idx_minus_1 \<ge> start \<and> data ! nat idx_minus_1 = CHR 0x0D
                       then idx_minus_1 else idx)
           in find_lines_loop data next_start (ret @ [(start, idx', next_start)]))"
  by pat_completeness auto
termination
proof (relation "measure (\<lambda>(data, start, ret). nat (py_len data - start))")
  show "wf (measure (\<lambda>(data, start, ret). nat (py_len data - start)))" by simp
next
  fix data :: bytes and start :: int and ret :: "line list" and x xa xb xc xd
  assume "x = py_len data" and xa: "xa = py_find data (CHR 0x0A) start x"
    and "\<not> xa < 0" and "xb = xa + 1"
  then have "0 \<le> py_find data (CHR 0x0A) start (py_len data)" by simp
  from py_find_range(1,2) [OF this] xa \<open>x = py_len data\<close> \<open>xb = xa + 1\<close>
  show "((data, xb, ret @ [(start, xd, xb)]), data, start, ret)
      \<in> measure (\<lambda>(data, start, ret). nat (py_len data - start))"
    by simp
qed

declare find_lines_loop.simps [simp del]

definition find_lines :: "bytes \<Rightarrow> line list" where
  "find_lines data = find_lines_loop data 0 []"

subsection \<open>\<^verbatim>\<open>MessageContent._split_lines\<close>\<close>

text \<open>The loop over \<^verbatim>\<open>enumerate(lines)\<close>: \<open>i\<close> is the index of the line at the head of
  the lines still to visit.\<close>

fun split_lines_from :: "bytes \<Rightarrow> line list \<Rightarrow> nat \<Rightarrow> line list \<Rightarrow> line list \<times> line list" where
  "split_lines_from data lines i [] = ([], lines)"
| "split_lines_from data lines i ((start, end', _) # rest) =
     (let ws_end = find_any data whitespace start end' False False
      in if ws_end < 0 then (take (i + 1) lines, drop (i + 1) lines)
         else split_lines_from data lines (i + 1) rest)"

definition split_lines :: "bytes \<Rightarrow> line list \<Rightarrow> line list \<times> line list" where
  "split_lines data lines = split_lines_from data lines 0 lines"


section \<open>The header: \<^verbatim>\<open>MessageHeader\<close>\<close>

text \<open>\<^verbatim>\<open>ParsedHeaders\<close> (\<^verbatim>\<open>pymap/mime/parsed.py\<close>) wraps the dictionary that
  \<^verbatim>\<open>_parse_headers\<close> builds: from a lower-cased header name to the list of the header's
  occurrences, each a list of the views of its lines.\<close>

datatype parsed_headers = ParsedHeaders (header_index: "bytes \<rightharpoonup> bytes list list")

datatype message_header =
  MessageHeader (mh_raw: bytes) (mh_lines: int)
    (mh_folded: "(bytes \<times> bytes) list") (mh_parsed: parsed_headers)

subsection \<open>\<^verbatim>\<open>MessageHeader._find_folds\<close>\<close>

text \<open>The loop body of \<^verbatim>\<open>_find_folds\<close>; \<open>ret[-1].append(line)\<close> extends the last group.
  The read \<open>data[start]\<close> is guarded by \<open>length >= 1\<close>, and the lines of the scan lie in
  the data (\<open>find_lines_scanned\<close> below).\<close>

fun find_folds_loop :: "bytes \<Rightarrow> line list \<Rightarrow> line list list \<Rightarrow> line list list" where
  "find_folds_loop data [] ret = ret"
| "find_folds_loop data ((start, end', next_start) # rest) ret =
     (let length' = end' - start
      in if length' \<ge> 1 \<and> data ! nat start \<in> whitespace
         then (if ret \<noteq> []
               then find_folds_loop data rest
                      (butlast ret @ [last ret @ [(start, end', next_start)]])
               else find_folds_loop data rest ret)
         else find_folds_loop data rest (ret @ [[(start, end', next_start)]]))"

definition find_folds :: "bytes \<Rightarrow> line list \<Rightarrow> line list list" where
  "find_folds data lines =
     (if lines = [] then []
      else find_folds_loop data (take (length lines - 1) lines) [])"

subsection \<open>\<^verbatim>\<open>MessageHeader._parse_headers\<close>\<close>

text \<open>The loop of \<^verbatim>\<open>_parse_headers\<close> over the groups, with the dictionary \<open>headers\<close> and
  the list \<open>folded\<close> as its state. \<open>group[0]\<close> is the first line of the group; there is no
  equation for an empty group, on which Python raises \<^verbatim>\<open>IndexError\<close> (the groups that
  \<^verbatim>\<open>_find_folds\<close> returns are never empty, see \<open>find_folds_nonempty\<close>).\<close>

fun parse_headers_loop ::
  "bytes \<Rightarrow> line list list \<Rightarrow> (bytes \<rightharpoonup> bytes list list) \<Rightarrow> (bytes \<times> bytes) list
     \<Rightarrow> (bytes \<times> bytes) list \<times> (bytes \<rightharpoonup> bytes list list)" where
  "parse_headers_loop data [] headers folded = (folded, headers)"
| "parse_headers_loop data (((start, end', next_start) # group_rest) # rest) headers folded =
     (let group = (start, end', next_start) # group_rest;
          colon = py_find data (CHR '':'') start end'
      in if colon < 0 then parse_headers_loop data rest headers folded
         else
           let name = lower (strip (slice data start colon));
               values = (case headers name of None \<Rightarrow> [] | Some v \<Rightarrow> v);
               values' = values @ [map (\<lambda>(start, end', _). slice data start end') group]
           in parse_headers_loop data rest (headers(name \<mapsto> values'))
                (folded @ [(name, get_raw data [group])]))"

definition parse_headers :: "bytes \<Rightarrow> line list list \<Rightarrow> (bytes \<times> bytes) list \<times> parsed_headers" where
  "parse_headers data folds =
     (let (folded, headers) = parse_headers_loop data folds Map.empty []
      in (folded, ParsedHeaders headers))"

definition header_parse :: "bytes \<Rightarrow> line list \<Rightarrow> message_header" where
  "header_parse data lines =
     (let folds = find_folds data lines;
          (folded, parsed) = parse_headers data folds;
          raw = get_raw data [lines]
      in MessageHeader raw (py_len lines) folded parsed)"

section \<open>The body: \<^verbatim>\<open>MessageBody\<close> and its three subclasses\<close>

text \<open>What the code reads of a \<^verbatim>\<open>ContentTypeHeader\<close> of Python's \<^verbatim>\<open>email\<close> package:
  \<open>maintype\<close>, \<open>subtype\<close> and the dictionary \<open>params\<close>.\<close>

record content_type =
  maintype :: pystr
  subtype :: pystr
  params :: "pystr \<rightharpoonup> pystr"

text \<open>\<^verbatim>\<open>_default_type\<close> is the package's parse of the header \<open>Content-Type: text/plain\<close>.\<close>

definition default_type :: content_type where
  "default_type = \<lparr>maintype = str ''text'', subtype = str ''plain'', params = Map.empty\<rparr>"

text \<open>The content tree. A body of any of the three classes has \<open>raw\<close>, \<open>lines\<close> and
  \<open>content_type\<close>; \<^verbatim>\<open>_MultipartBody\<close> and \<^verbatim>\<open>_RFC822Body\<close> also keep the list \<open>_nested\<close>.
  The attributes of the three classes \<^verbatim>\<open>MessageContent\<close>, \<^verbatim>\<open>MessageHeader\<close> and
  \<^verbatim>\<open>MessageBody\<close> are the selectors \<open>mc_\<close>, \<open>mh_\<close> and \<open>mb_\<close> followed by the attribute's
  name.\<close>

datatype message_content =
  MessageContent (mc_raw: bytes) (mc_lines: int)
    (mc_header: message_header) (mc_body: message_body)
and message_body =
  SinglepartBody (mb_raw: bytes) (mb_lines: int) (mb_content_type: content_type)
| MultipartBody (mb_raw: bytes) (mb_lines: int) (mb_content_type: content_type)
    (mb_multipart_nested: "message_content list")
| RFC822Body (mb_raw: bytes) (mb_lines: int) (mb_content_type: content_type)
    (mb_rfc822_nested: "message_content list")

fun has_nested :: "message_body \<Rightarrow> bool" where
  "has_nested (SinglepartBody raw lines ct) = False"
| "has_nested (MultipartBody raw lines ct nested') = True"
| "has_nested (RFC822Body raw lines ct nested') = True"

fun nested :: "message_body \<Rightarrow> message_content list" where
  "nested (SinglepartBody raw lines ct) = []"
| "nested (MultipartBody raw lines ct nested') = nested'"
| "nested (RFC822Body raw lines ct nested') = nested'"

text \<open>\<^verbatim>\<open>_RFC822Body.__init__\<close> takes \<open>raw\<close> and \<open>lines\<close> from the one sub-part.\<close>

definition rfc822_init :: "message_content \<Rightarrow> content_type \<Rightarrow> message_body" where
  "rfc822_init subpart ct = RFC822Body (mc_raw subpart) (mc_lines subpart) ct [subpart]"

subsection \<open>\<^verbatim>\<open>MessageBody._get_boundary\<close>\<close>

text \<open>\<open>boundary.encode('ascii')\<close> raises \<^verbatim>\<open>UnicodeError\<close> on a code point above 127.\<close>

definition encode_ascii :: "pystr \<Rightarrow> bytes option" where
  "encode_ascii s = (if \<forall>c \<in> set s. c < 128 then Some (map char_of s) else None)"

definition get_boundary :: "content_type \<Rightarrow> bytes option" where
  "get_boundary ct =
     (case params ct (str ''boundary'') of
        None \<Rightarrow> None
      | Some boundary \<Rightarrow> (if boundary \<noteq> [] then encode_ascii boundary else None))"

subsection \<open>\<^verbatim>\<open>_MultipartBody._find_parts\<close>\<close>

fun find_parts_loop ::
  "bytes \<Rightarrow> bytes list \<Rightarrow> bytes list \<Rightarrow> line list \<Rightarrow> line list list \<Rightarrow> line list list" where
  "find_parts_loop data part_match stop_match [] ret = ret"
| "find_parts_loop data part_match stop_match ((start, end', next_start) # rest) ret =
     (let line_view = slice data start end'
      in if list_ex (\<lambda>m. line_view = m) stop_match then ret
         else if list_ex (\<lambda>m. line_view = m) part_match
           then find_parts_loop data part_match stop_match rest (ret @ [[]])
         else if ret \<noteq> []
           then find_parts_loop data part_match stop_match rest
                  (butlast ret @ [last ret @ [(start, end', next_start)]])
         else find_parts_loop data part_match stop_match rest ret)"

definition find_parts :: "bytes \<Rightarrow> line list \<Rightarrow> bytes \<Rightarrow> line list list" where
  "find_parts data lines boundary =
     (let part_match = [''--'' @ boundary, ''--'' @ boundary];
          stop_match = [''--'' @ boundary @ ''--'', ''--'' @ boundary @ ''--'']
      in find_parts_loop data part_match stop_match lines [])"

subsection \<open>\<^verbatim>\<open>_SinglepartBody._parse_body\<close>\<close>

definition singlepart_parse_body :: "bytes \<Rightarrow> line list \<Rightarrow> content_type \<Rightarrow> message_body" where
  "singlepart_parse_body data lines ct =
     (let raw = get_raw data [lines] in SinglepartBody raw (py_len lines) ct)"

subsection \<open>The property \<^verbatim>\<open>ParsedHeaders.content_type\<close>\<close>

text \<open>
  Modelled from the spec: \<^verbatim>\<open>pymap/mime/parsed.py\<close> is not among the sources. The
  specification has the parser "read \<open>Content-Type\<close>" and use the default "when absent or
  unparseable": the property is \<open>None\<close> when the index has no \<open>content-type\<close> entry, and
  otherwise what the header parser of Python's \<^verbatim>\<open>email\<close> package makes of the entry, where
  \<open>None\<close> stands for a value it cannot parse. That parser is the parameter \<open>P\<close> of the
  model.
\<close>

type_synonym content_type_parser = "bytes list list \<Rightarrow> content_type option"

definition parsed_content_type :: "content_type_parser \<Rightarrow> parsed_headers \<Rightarrow> content_type option" where
  "parsed_content_type P ph =
     (case header_index ph ''content-type'' of None \<Rightarrow> None | Some values \<Rightarrow> P values)"

lemma split_lines_from_append:
  "split_lines_from data lines i rest = (h, b) \<Longrightarrow> h @ b = lines"
proof (induction rest arbitrary: i)
  case Nil
  then show ?case by simp
next
  case (Cons l rest)
  obtain s e n where l: "l = (s, e, n)" by (cases l)
  show ?case
  proof (cases "find_any data whitespace s e False False < 0")
    case True
    with Cons.prems l show ?thesis by auto
  next
    case False
    with Cons.prems l have "split_lines_from data lines (i + 1) rest = (h, b)" by simp
    then show ?thesis by (rule Cons.IH)
  qed
qed

lemma split_lines_append: "split_lines data lines = (h, b) \<Longrightarrow> h @ b = lines"
  unfolding split_lines_def by (rule split_lines_from_append)

lemma header_parse_no_lines: "mh_parsed (header_parse data []) = ParsedHeaders Map.empty"
  by (simp add: header_parse_def find_folds_def parse_headers_def)

lemma content_type_needs_header_lines:
  assumes "split_lines data lines = (h, b)"
    and "parsed_content_type P (mh_parsed (header_parse data h)) = Some ct"
  shows "length b < length lines"
proof -
  from assms(2) have "h \<noteq> []"
    by (auto simp: header_parse_no_lines parsed_content_type_def)
  moreover from assms(1) have "h @ b = lines" by (rule split_lines_append)
  ultimately show ?thesis by (cases h) auto
qed

lemma find_parts_loop_size:
  "sum_list (map length (find_parts_loop data pm sm ls ret))
     \<le> sum_list (map length ret) + length ls"
proof (induction ls arbitrary: ret)
  case Nil
  then show ?case by simp
next
  case (Cons l ls)
  obtain s e n where l: "l = (s, e, n)" by (cases l)
  have grow: "sum_list (map length (butlast ret @ [last ret @ [l]])) = sum_list (map length ret) + 1"
    if "ret \<noteq> []"
  proof -
    from that have "ret = butlast ret @ [last ret]" by simp
    then have "sum_list (map length ret) = sum_list (map length (butlast ret)) + length (last ret)"
      by (metis (no_types) list.simps(8,9) map_append sum_list.Cons sum_list.Nil sum_list_append add_0_right)
    then show ?thesis by simp
  qed
  show ?case
  proof (cases "list_ex (\<lambda>m. slice data s e = m) sm")
    case True
    with l show ?thesis by simp
  next
    case stop: False
    show ?thesis
    proof (cases "list_ex (\<lambda>m. slice data s e = m) pm")
      case True
      with stop l Cons.IH [of "ret @ [[]]"] show ?thesis by simp
    next
      case part: False
      show ?thesis
      proof (cases "ret = []")
        case True
        with stop part l Cons.IH [of ret] show ?thesis by simp
      next
        case False
        with stop part l Cons.IH [of "butlast ret @ [last ret @ [l]]"] grow [OF False]
        show ?thesis by simp
      qed
    qed
  qed
qed

lemma find_parts_length:
  assumes "part \<in> set (find_parts data lines boundary)"
  shows "length part \<le> length lines"
proof -
  from assms have "length part \<le> sum_list (map length (find_parts data lines boundary))"
    by (simp add: member_le_sum_list)
  also have "\<dots> \<le> length lines"
    using find_parts_loop_size [of data _ _ lines "[]"] by (simp add: find_parts_def Let_def)
  finally show ?thesis .
qed

subsection \<open>\<^verbatim>\<open>MessageContent._parse\<close>, \<^verbatim>\<open>MessageBody._parse\<close> and the two \<^verbatim>\<open>_parse_body\<close> that recurse\<close>

text \<open>The four methods call each other: a content parses its body, a multipart body parses
  each of its parts as a content, and a \<open>message/rfc822\<close> body parses all its lines as one
  content. They stop because a content type other than the default needs a header, a
  header needs the blank line that ends it, and the body is what comes after that line.\<close>

function content_parse :: "content_type_parser \<Rightarrow> bytes \<Rightarrow> line list \<Rightarrow> message_content"
  and body_parse ::
    "content_type_parser \<Rightarrow> bytes \<Rightarrow> line list \<Rightarrow> content_type option \<Rightarrow> message_body"
  and multipart_parse_body ::
    "content_type_parser \<Rightarrow> bytes \<Rightarrow> line list \<Rightarrow> content_type \<Rightarrow> bytes \<Rightarrow> message_body"
  and rfc822_parse_body ::
    "content_type_parser \<Rightarrow> bytes \<Rightarrow> line list \<Rightarrow> content_type \<Rightarrow> message_body"
where
  "content_parse P data lines =
     (let (header_lines, body_lines) = split_lines data lines;
          header = header_parse data header_lines;
          content_type = parsed_content_type P (mh_parsed header);
          body = body_parse P data body_lines content_type;
          raw = get_raw data [header_lines, body_lines];
          num_lines = py_len lines - 1
      in MessageContent raw num_lines header body)"
| "body_parse P data lines content_type =
     (let content_type = (case content_type of None \<Rightarrow> default_type | Some ct \<Rightarrow> ct);
          maintype = maintype content_type
      in if maintype = str ''multipart''
         then (case get_boundary content_type of
                 Some boundary \<Rightarrow>
                   if boundary \<noteq> []
                   then multipart_parse_body P data lines content_type boundary
                   else singlepart_parse_body data lines content_type
               | None \<Rightarrow> singlepart_parse_body data lines content_type)
         else if maintype = str ''message'' \<and> subtype content_type = str ''rfc822''
         then rfc822_parse_body P data lines content_type
         else singlepart_parse_body data lines content_type)"
| "multipart_parse_body P data lines content_type boundary =
     (let parts = find_parts data lines boundary;
          nested = map (\<lambda>part_lines. content_parse P data part_lines) parts;
          raw = get_raw data [lines]
      in MultipartBody raw (py_len lines) content_type nested)"
| "rfc822_parse_body P data lines content_type =
     (let subpart = content_parse P data lines
      in rfc822_init subpart content_type)"
  by pat_completeness auto
termination
proof (relation "measure (\<lambda>x. case x of
      Inl (Inl (P, data, lines)) \<Rightarrow> 4 * length lines + 1
    | Inl (Inr (P, data, lines, ct)) \<Rightarrow> (case ct of None \<Rightarrow> 0 | Some _ \<Rightarrow> 4 * length lines + 3)
    | Inr (Inl (P, data, lines, ct, boundary)) \<Rightarrow> 4 * length lines + 2
    | Inr (Inr (P, data, lines, ct)) \<Rightarrow> 4 * length lines + 2)", goal_cases)
  case 1
  show ?case by simp
next
  case (2 P data lines x xa y xb xc)
  show ?case
  proof (cases xc)
    case None
    then show ?thesis by simp
  next
    case (Some ct)
    with 2 have "length y < length lines"
      using content_type_needs_header_lines [of data lines xa y P ct] by simp
    with Some show ?thesis by simp
  qed
next
  case (3 P data lines content_type x xa x2)
  then show ?case
    by (cases content_type) (simp_all add: default_type_def str_def)
next
  case (4 P data lines content_type x xa)
  then show ?case
    by (cases content_type) (simp_all add: default_type_def str_def)
next
  case (5 P data lines content_type boundary x xa)
  then have "length xa \<le> length lines" by (simp add: find_parts_length)
  then show ?case by simp
next
  case (6 P data lines content_type)
  show ?case by simp
qed


declare content_parse.simps [simp del] body_parse.simps [simp del]
  multipart_parse_body.simps [simp del] rfc822_parse_body.simps [simp del]

subsection \<open>\<^verbatim>\<open>MessageContent.parse\<close>\<close>

definition parse :: "content_type_parser \<Rightarrow> bytes \<Rightarrow> message_content" where
  "parse P data = (let lines = find_lines data in content_parse P data lines)"

subsection \<open>\<^verbatim>\<open>MessageContent.walk\<close>\<close>

text \<open>\<open>chain([self], *(part.walk() for part in self.body.nested))\<close>, as the list of what the
  iterator yields.\<close>

lemma nested_size: "part \<in> set (nested b) \<Longrightarrow> size part < size b"
  by (cases b) (auto simp: less_Suc_eq_le dest: size_list_estimation')

lemma body_size: "size (mc_body self) < size self"
  by (cases self) simp

function walk :: "message_content \<Rightarrow> message_content list" where
  "walk self =
     (if has_nested (mc_body self)
      then self # concat (map (\<lambda>part. walk part) (nested (mc_body self)))
      else [self])"
  by pat_completeness auto
termination
proof (relation "measure size", goal_cases)
  case 1
  show ?case by simp
next
  case (2 self part)
  then have "size part < size (mc_body self)" by (simp add: nested_size)
  also have "\<dots> < size self" by (rule body_size)
  finally show ?case by simp
qed

declare walk.simps [simp del]



section \<open>The dictionary backend: \<^verbatim>\<open>pymap/backend/dict/__init__.py\<close>\<close>

datatype error = InvalidAuth | ValueError | OverflowError | NoSuchMailbox | MailboxConflict

subsection \<open>What the backend takes from elsewhere\<close>

text \<open>
  The loader reads packaged resources through \<^verbatim>\<open>pkg_resources\<close> and converts the time
  stamp with Python's \<^verbatim>\<open>float\<close> and \<^verbatim>\<open>datetime.fromtimestamp\<close>; \<^verbatim>\<open>Flag\<close> and \<^verbatim>\<open>Recent\<close>
  come from \<^verbatim>\<open>pymap/parsing/specials/flag.py\<close>, which is not among the sources. All six
  are parameters of the model, gathered in one record: the directory listing and the
  bytes of a resource, the two conversions with the exception they raise on a value they
  reject, the constructor of a flag from its token, and the flag \<open>\Recent\<close>.
\<close>

record ('f, 'dt, 'flag) env =
  resource_listdir :: "pystr \<Rightarrow> pystr list"
  resource_stream :: "pystr \<Rightarrow> bytes"
  float :: "bytes \<Rightarrow> error + 'f"
  fromtimestamp :: "'f \<Rightarrow> error + 'dt"
  Flag :: "bytes \<Rightarrow> 'flag"
  Recent :: "'flag"

text \<open>
  Modelled from the spec: \<^verbatim>\<open>Message\<close>, \<^verbatim>\<open>MailboxData\<close> and \<^verbatim>\<open>MailboxSet\<close> are defined in
  \<^verbatim>\<open>pymap/backend/dict/mailbox.py\<close>, which is not among the sources. Following the
  specification's data model, a message record "binds" the message's content to a UID,
  a flag set and an internal date; of a mailbox the model keeps the read-only bit and the
  calls of \<open>add\<close>, each with its message and its \<open>recent\<close> argument, in the order they were
  made; a mailbox set is "a mapping from name to MailboxData" in which \<open>INBOX\<close> exists
  from the start, \<open>get_mailbox\<close> fails with \<open>NoSuchMailbox\<close> on a missing name, and names
  are unique.
\<close>

record ('dt, 'flag) message =
  uid :: int
  contents :: bytes
  permanent_flags :: "'flag set"
  internal_date :: 'dt

definition message_parse :: "int \<Rightarrow> bytes \<Rightarrow> 'flag set \<Rightarrow> 'dt \<Rightarrow> ('dt, 'flag) message" where
  "message_parse uid' data flags dt =
     \<lparr>uid = uid', contents = data, permanent_flags = flags, internal_date = dt\<rparr>"

record ('dt, 'flag) mailbox_data =
  readonly :: bool
  added :: "(('dt, 'flag) message \<times> bool) list"

definition new_mailbox :: "('dt, 'flag) mailbox_data" where
  "new_mailbox = \<lparr>readonly = False, added = []\<rparr>"

definition mailbox_add ::
  "('dt, 'flag) mailbox_data \<Rightarrow> ('dt, 'flag) message \<Rightarrow> bool \<Rightarrow> ('dt, 'flag) mailbox_data" where
  "mailbox_add mbx msg recent = mbx\<lparr>added := added mbx @ [(msg, recent)]\<rparr>"

type_synonym ('dt, 'flag) mailbox_set = "pystr \<rightharpoonup> ('dt, 'flag) mailbox_data"

definition new_mailbox_set :: "('dt, 'flag) mailbox_set" where
  "new_mailbox_set = [str ''INBOX'' \<mapsto> new_mailbox]"

definition get_mailbox :: "('dt, 'flag) mailbox_set \<Rightarrow> pystr \<Rightarrow> error + ('dt, 'flag) mailbox_data" where
  "get_mailbox ms name = (case ms name of None \<Rightarrow> Inl NoSuchMailbox | Some mbx \<Rightarrow> Inr mbx)"

definition add_mailbox :: "('dt, 'flag) mailbox_set \<Rightarrow> pystr \<Rightarrow> error + ('dt, 'flag) mailbox_data" where
  "add_mailbox ms name = (case ms name of None \<Rightarrow> Inr new_mailbox | Some mbx \<Rightarrow> Inl MailboxConflict)"

subsection \<open>Python's \<^verbatim>\<open>os.path.join\<close>, \<^verbatim>\<open>readline\<close>, \<^verbatim>\<open>split\<close> and \<^verbatim>\<open>startswith\<close>\<close>

definition startswith :: "'a list \<Rightarrow> 'a list \<Rightarrow> bool" where
  "startswith s prefix = (take (length prefix) s = prefix)"

definition endswith :: "'a list \<Rightarrow> 'a list \<Rightarrow> bool" where
  "endswith s suffix = (length suffix \<le> length s \<and> drop (length s - length suffix) s = suffix)"

text \<open>\<^verbatim>\<open>posixpath.join\<close> of two components.\<close>

definition path_join :: "pystr \<Rightarrow> pystr \<Rightarrow> pystr" where
  "path_join a b =
     (if startswith b (str ''/'') then b
      else if a = [] \<or> endswith a (str ''/'') then a @ b
      else a @ str ''/'' @ b)"

text \<open>\<open>readline()\<close> on a stream with the bytes \<open>b\<close> left: the line read, with its line feed
  when there is one, and the bytes left after it. \<open>read()\<close> takes all that is left.\<close>

definition readline :: "bytes \<Rightarrow> bytes \<times> bytes" where
  "readline b =
     (let line = takeWhile (\<lambda>c. c \<noteq> CHR 0x0A) b;
          rest = dropWhile (\<lambda>c. c \<noteq> CHR 0x0A) b
      in (line @ take 1 rest, drop 1 rest))"

text \<open>\<open>bytes.split()\<close> without a separator: the maximal runs of bytes that are not
  whitespace; \<open>cur\<close> is the run being read.\<close>

fun split_run :: "bytes \<Rightarrow> bytes \<Rightarrow> bytes list" where
  "split_run [] cur = (if cur = [] then [] else [cur])"
| "split_run (c # cs) cur =
     (if py_space c then (if cur = [] then split_run cs [] else cur # split_run cs [])
      else split_run cs (cur @ [c]))"

definition split :: "bytes \<Rightarrow> bytes list" where
  "split b = split_run b []"

subsection \<open>\<^verbatim>\<open>Session._load_demo_mailbox\<close>\<close>

text \<open>The body of the loop for one message file: what is read from the stream, and the
  message and the \<open>recent\<close> argument that are handed to \<open>mbx.add\<close>.\<close>

definition load_message ::
  "('f, 'dt, 'flag) env \<Rightarrow> pystr \<Rightarrow> error + (('dt, 'flag) message \<times> bool)" where
  "load_message env msg_path =
     (let message_stream = resource_stream env msg_path;
          (flags_line, message_stream) = readline message_stream;
          (timestamp_line, message_stream) = readline message_stream
      in case float env timestamp_line of
           Inl e \<Rightarrow> Inl e
         | Inr msg_timestamp \<Rightarrow>
             let msg_data = message_stream
             in case fromtimestamp env msg_timestamp of
                  Inl e \<Rightarrow> Inl e
                | Inr msg_dt \<Rightarrow>
                    let msg_flags = Flag env ` set (split flags_line)
                    in if Recent env \<in> msg_flags
                       then Inr (message_parse 0 msg_data (msg_flags - {Recent env}) msg_dt, True)
                       else Inr (message_parse 0 msg_data msg_flags msg_dt, False))"

fun load_demo_mailbox_loop ::
  "('f, 'dt, 'flag) env \<Rightarrow> pystr \<Rightarrow> pystr list \<Rightarrow> ('dt, 'flag) mailbox_data
     \<Rightarrow> error + ('dt, 'flag) mailbox_data" where
  "load_demo_mailbox_loop env path [] mbx = Inr mbx"
| "load_demo_mailbox_loop env path (msg_name # msg_names) mbx =
     (if msg_name = str ''.readonly''
      then load_demo_mailbox_loop env path msg_names (mbx\<lparr>readonly := True\<rparr>)
      else if startswith msg_name (str ''.'')
      then load_demo_mailbox_loop env path msg_names mbx
      else
        let msg_path = path_join path msg_name
        in case load_message env msg_path of
             Inl e \<Rightarrow> Inl e
           | Inr (msg, msg_recent) \<Rightarrow>
               load_demo_mailbox_loop env path msg_names (mailbox_add mbx msg msg_recent))"

definition load_demo_mailbox ::
  "('f, 'dt, 'flag) env \<Rightarrow> pystr \<Rightarrow> ('dt, 'flag) mailbox_data \<Rightarrow> error + ('dt, 'flag) mailbox_data" where
  "load_demo_mailbox env name mbx =
     (let path = path_join (str ''demo'') name;
          msg_names = sort (resource_listdir env path)
      in load_demo_mailbox_loop env path msg_names mbx)"

subsection \<open>\<^verbatim>\<open>Session._load_demo\<close>\<close>

fun load_demo_loop ::
  "('f, 'dt, 'flag) env \<Rightarrow> pystr list \<Rightarrow> ('dt, 'flag) mailbox_set \<Rightarrow> error + ('dt, 'flag) mailbox_set" where
  "load_demo_loop env [] mailbox_set = Inr mailbox_set"
| "load_demo_loop env (name # mbx_names) mailbox_set =
     (if name \<noteq> str ''INBOX''
      then case add_mailbox mailbox_set name of
             Inl e \<Rightarrow> Inl e
           | Inr mbx \<Rightarrow>
               (case load_demo_mailbox env name mbx of
                  Inl e \<Rightarrow> Inl e
                | Inr mbx' \<Rightarrow> load_demo_loop env mbx_names (mailbox_set(name \<mapsto> mbx')))
      else load_demo_loop env mbx_names mailbox_set)"

definition load_demo ::
  "('f, 'dt, 'flag) env \<Rightarrow> ('dt, 'flag) mailbox_set \<Rightarrow> error + ('dt, 'flag) mailbox_set" where
  "load_demo env mailbox_set =
     (case get_mailbox mailbox_set (str ''INBOX'') of
        Inl e \<Rightarrow> Inl e
      | Inr inbox \<Rightarrow>
          (case load_demo_mailbox env (str ''INBOX'') inbox of
             Inl e \<Rightarrow> Inl e
           | Inr inbox' \<Rightarrow>
               let mbx_names = sort (resource_listdir env (str ''demo''))
               in load_demo_loop env mbx_names (mailbox_set(str ''INBOX'' \<mapsto> inbox'))))"

subsection \<open>\<^verbatim>\<open>Session.get_password\<close> and \<^verbatim>\<open>Session.login\<close>\<close>

text \<open>The configuration with the two command-line arguments, the \<open>demo_data\<close> switch and
  the cache of mailbox sets; the credentials of \<^verbatim>\<open>pysasl\<close> with the authentication
  identity and the method \<open>check_secret\<close>.\<close>

record ('dt, 'flag) config =
  demo_user :: pystr
  demo_password :: pystr
  demo_data :: bool
  set_cache :: "pystr \<rightharpoonup> ('dt, 'flag) mailbox_set"

record credentials =
  authcid :: pystr
  check_secret :: "pystr \<Rightarrow> bool"

datatype ('dt, 'flag) session = Session "('dt, 'flag) config" "('dt, 'flag) mailbox_set"

definition get_password :: "('dt, 'flag) config \<Rightarrow> pystr \<Rightarrow> error + pystr" where
  "get_password config user =
     (let expected_user = demo_user config;
          expected_password = demo_password config
      in if user = expected_user then Inr expected_password else Inl InvalidAuth)"

text \<open>\<open>login\<close> returns the session; the model returns with it the configuration, whose
  cache the call may have filled. \<open>not password\<close> holds of the empty string, and
  \<open>not mailbox_set\<close> of a missing cache entry.\<close>

definition login ::
  "('f, 'dt, 'flag) env \<Rightarrow> credentials \<Rightarrow> ('dt, 'flag) config
     \<Rightarrow> error + (('dt, 'flag) session \<times> ('dt, 'flag) config)" where
  "login env credentials config =
     (let user = authcid credentials
      in case get_password config user of
           Inl e \<Rightarrow> Inl e
         | Inr password \<Rightarrow>
             if password = [] \<or> \<not> check_secret credentials password then Inl InvalidAuth
             else
               (case set_cache config user of
                  Some mailbox_set \<Rightarrow> Inr (Session config mailbox_set, config)
                | None \<Rightarrow>
                    (case (if demo_data config then load_demo env new_mailbox_set
                           else Inr new_mailbox_set) of
                       Inl e \<Rightarrow> Inl e
                     | Inr mailbox_set \<Rightarrow>
                         let config' = config\<lparr>set_cache := (set_cache config)(user \<mapsto> mailbox_set)\<rparr>
                         in Inr (Session config' mailbox_set, config'))))"

section \<open>The demo message: \<^verbatim>\<open>pymap/demo/message.py\<close>\<close>

text \<open>A message of the demo keeps its sequence number, its UID, its flags and its data.
  \<open>fetch_internal_date\<close> reads the system clock; \<open>now\<close> is the reading at the moment of the
  call, in microseconds since the epoch.\<close>

record demo_message =
  dm_seq :: int
  dm_uid :: int
  dm_flags :: "bytes list"
  dm_data :: bytes

datatype date_time = DateTime int

definition demo_message_init :: "int \<Rightarrow> int \<Rightarrow> bytes list \<Rightarrow> bytes \<Rightarrow> demo_message" where
  "demo_message_init seq uid' flags data =
     \<lparr>dm_seq = seq, dm_uid = uid', dm_flags = flags, dm_data = data\<rparr>"

definition fetch_internal_date :: "demo_message \<Rightarrow> int \<Rightarrow> date_time" where
  "fetch_internal_date self now = DateTime now"


section \<open>Properties of the header and body split\<close>

text \<open>The specification's "empty or whitespace-only" line: every byte of
  \<open>data[start:end]\<close> is a whitespace byte.\<close>

definition blank_line :: "bytes \<Rightarrow> line \<Rightarrow> bool" where
  "blank_line data l = (\<forall>b \<in> set (slice data (fst l) (fst (snd l))). b \<in> whitespace)"

lemma find_first_negative:
  "0 \<le> k \<Longrightarrow> find_first p xs k < 0 \<longleftrightarrow> (\<forall>x \<in> set xs. \<not> p x)"
  by (induction xs arbitrary: k) auto

lemma find_any_blank_line:
  "find_any data whitespace start end' False False < 0 \<longleftrightarrow> blank_line data (start, end', n)"
proof -
  have "0 \<le> clamp_index (py_len data) start"
    using clamp_index_range [of "py_len data" start] by (simp add: py_len_def)
  then show ?thesis
    by (simp add: find_any_def blank_line_def find_first_negative)
qed

lemma split_lines_from_none:
  "\<forall>l \<in> set rest. \<not> blank_line data l \<Longrightarrow> split_lines_from data lines i rest = ([], lines)"
proof (induction rest arbitrary: i)
  case Nil
  then show ?case by simp
next
  case (Cons l rest)
  obtain s e n where l: "l = (s, e, n)" by (cases l)
  from Cons.prems l have "\<not> find_any data whitespace s e False False < 0"
    by (simp add: find_any_blank_line [of data s e n])
  with Cons l show ?case by simp
qed

lemma split_lines_from_first:
  assumes "\<forall>x \<in> set a. \<not> blank_line data x" and "blank_line data l"
  shows "split_lines_from data lines i (a @ l # b) =
           (take (i + length a + 1) lines, drop (i + length a + 1) lines)"
  using assms(1)
proof (induction a arbitrary: i)
  case Nil
  obtain s e n where l: "l = (s, e, n)" by (cases l)
  with assms(2) have "find_any data whitespace s e False False < 0"
    by (simp add: find_any_blank_line [of data s e n])
  with l show ?case by simp
next
  case (Cons x a)
  obtain s e n where x: "x = (s, e, n)" by (cases x)
  from Cons.prems x have "\<not> find_any data whitespace s e False False < 0"
    by (simp add: find_any_blank_line [of data s e n])
  moreover from Cons have "split_lines_from data lines (i + 1) (a @ l # b) =
           (take (i + 1 + length a + 1) lines, drop (i + 1 + length a + 1) lines)"
    by simp
  ultimately show ?case using x by simp
qed

lemma split_lines_first:
  assumes "\<forall>x \<in> set a. \<not> blank_line data x" and "blank_line data l"
  shows "split_lines data (a @ l # b) = (a @ [l], b)"
  using split_lines_from_first [OF assms, of "a @ l # b" 0 b]
  by (simp add: split_lines_def)

lemma split_lines_none:
  "\<forall>x \<in> set lines. \<not> blank_line data x \<Longrightarrow> split_lines data lines = ([], lines)"
  by (simp add: split_lines_def split_lines_from_none)

lemma find_lines_loop_nonempty: "find_lines_loop data start ret \<noteq> []"
proof (induction data start ret rule: find_lines_loop.induct)
  case (1 data start ret)
  show ?case
  proof (cases "py_find data (CHR 0x0A) start (py_len data) < 0")
    case True
    then show ?thesis by (subst find_lines_loop.simps) (simp add: Let_def)
  next
    case False
    with 1 show ?thesis by (subst find_lines_loop.simps) (simp add: Let_def)
  qed
qed

lemma find_lines_nonempty: "find_lines data \<noteq> []"
  by (simp add: find_lines_def find_lines_loop_nonempty)

lemma header_parse_no_lines_all:
  "header_parse data [] = MessageHeader [] 0 [] (ParsedHeaders Map.empty)"
  by (simp add: header_parse_def find_folds_def parse_headers_def get_raw_def py_len_def)

lemma body_parse_default:
  "body_parse P data lines None = singlepart_parse_body data lines default_type"
  by (simp add: body_parse.simps default_type_def str_def)

lemma content_parse_no_header:
  assumes "split_lines data lines = ([], lines)"
  shows "content_parse P data lines =
     MessageContent (get_raw data [[], lines]) (py_len lines - 1)
       (MessageHeader [] 0 [] (ParsedHeaders Map.empty))
       (SinglepartBody (get_raw data [lines]) (py_len lines) default_type)"
  using assms
  by (simp add: content_parse.simps header_parse_no_lines_all parsed_content_type_def
      body_parse_default singlepart_parse_body_def get_raw_def)


text \<open>
  C1. \<open>parse\<close> parses the header from the first and the body from the second of the two
  lists of lines that \<^verbatim>\<open>_split_lines\<close> makes of the lines of its input. In that split,
  of the lines of the input as of the lines of a nested part, the first line that is
  empty or whitespace-only ends the header region and belongs to it, and all lines after
  it are the body; when no line is empty or whitespace-only, the header region is empty
  and every line is in the body.
\<close>

theorem split_lines_first_blank:
  "mc_header (parse P data) = header_parse data (fst (split_lines data (find_lines data))) \<and>
   mc_body (parse P data) =
     body_parse P data (snd (split_lines data (find_lines data)))
       (parsed_content_type P
          (mh_parsed (header_parse data (fst (split_lines data (find_lines data)))))) \<and>
   (\<forall>a l b. lines = a @ l # b \<and> (\<forall>x \<in> set a. \<not> blank_line data x) \<and> blank_line data l
       \<longrightarrow> split_lines data lines = (a @ [l], b)) \<and>
   ((\<forall>x \<in> set lines. \<not> blank_line data x) \<longrightarrow> split_lines data lines = ([], lines))"
proof (intro conjI allI impI)
  show "mc_header (parse P data) = header_parse data (fst (split_lines data (find_lines data)))"
    by (simp add: parse_def content_parse.simps [of P data "find_lines data"] Let_def
        split: prod.splits)
  show "mc_body (parse P data) =
     body_parse P data (snd (split_lines data (find_lines data)))
       (parsed_content_type P
          (mh_parsed (header_parse data (fst (split_lines data (find_lines data))))))"
    by (simp add: parse_def content_parse.simps [of P data "find_lines data"] Let_def
        split: prod.splits)
next
  fix a l b
  assume "lines = a @ l # b \<and> (\<forall>x \<in> set a. \<not> blank_line data x) \<and> blank_line data l"
  then show "split_lines data lines = (a @ [l], b)" by (simp add: split_lines_first)
next
  assume "\<forall>x \<in> set lines. \<not> blank_line data x"
  then show "split_lines data lines = ([], lines)" by (rule split_lines_none)
qed

theorem split_lines_first_blank_witness:
  "split_lines (''A: b'' @ [CHR 0x0A, CHR 0x0A] @ ''body'')
       (find_lines (''A: b'' @ [CHR 0x0A, CHR 0x0A] @ ''body''))
     = ([(0, 4, 5), (5, 5, 6)], [(6, 10, 10)]) \<and>
   split_lines ''Subject: x'' (find_lines ''Subject: x'') = ([], [(0, 10, 10)])"
proof
  let ?d = "''A: b'' @ [CHR 0x0A, CHR 0x0A] @ ''body''"
  have l: "find_lines ?d = [(0, 4, 5)] @ (5, 5, 6) # [(6, 10, 10)]"
    by code_simp
  have b: "\<forall>x \<in> set [(0, 4, 5)]. \<not> blank_line ?d x" "blank_line ?d (5, 5, 6)"
    by (simp_all add: blank_line_def slice_def clamp_index_def py_len_def whitespace_def)
  from split_lines_first_blank [where lines = "find_lines ?d" and data = ?d and P = "\<lambda>v. None"] l b
  have "split_lines ?d (find_lines ?d) = ([(0, 4, 5)] @ [(5, 5, 6)], [(6, 10, 10)])"
    by blast
  then show "split_lines ?d (find_lines ?d) = ([(0, 4, 5), (5, 5, 6)], [(6, 10, 10)])"
    by simp
next
  let ?d = "''Subject: x''"
  have l: "find_lines ?d = [(0, 10, 10)]"
    by code_simp
  have b: "\<forall>x \<in> set [(0, 10, 10)]. \<not> blank_line ?d x"
    by (simp add: blank_line_def slice_def clamp_index_def py_len_def whitespace_def)
  from split_lines_first_blank [where lines = "find_lines ?d" and data = ?d and P = "\<lambda>v. None"] l b
  show "split_lines ?d (find_lines ?d) = ([], [(0, 10, 10)])"
    by simp
qed

section \<open>Properties of the header\<close>

text \<open>The words of the specification about a header region: a line "whose first byte is
  whitespace" (it has a first byte, and that byte is whitespace); a logical header, which
  starts with a line that is not such a line and goes on with lines that are; the place
  of the first colon in the first line of a group, negative when the line has none; the
  name, "the bytes before \<open>:\<close>, stripped and lowercased"; the views of the lines of a
  group; and the groups that are kept.\<close>

definition continuation_line :: "bytes \<Rightarrow> line \<Rightarrow> bool" where
  "continuation_line data l =
     (case l of (start, end', _) \<Rightarrow> end' - start \<ge> 1 \<and> data ! nat start \<in> whitespace)"

definition header_group :: "bytes \<Rightarrow> line list \<Rightarrow> bool" where
  "header_group data g =
     (g \<noteq> [] \<and> \<not> continuation_line data (hd g) \<and> (\<forall>l \<in> set (tl g). continuation_line data l))"

definition colon_index :: "bytes \<Rightarrow> line list \<Rightarrow> int" where
  "colon_index data g = (case hd g of (start, end', _) \<Rightarrow> py_find data (CHR '':'') start end')"

definition header_name :: "bytes \<Rightarrow> line list \<Rightarrow> bytes" where
  "header_name data g =
     (case hd g of (start, _, _) \<Rightarrow> lower (strip (slice data start (colon_index data g))))"

definition line_views :: "bytes \<Rightarrow> line list \<Rightarrow> bytes list" where
  "line_views data g = map (\<lambda>(start, end', _). slice data start end') g"

definition kept_folds :: "bytes \<Rightarrow> line list list \<Rightarrow> line list list" where
  "kept_folds data folds = filter (\<lambda>g. 0 \<le> colon_index data g) folds"

lemma find_folds_loop_step:
  "find_folds_loop data (l # ls) ret =
     (if continuation_line data l
      then (if ret \<noteq> [] then find_folds_loop data ls (butlast ret @ [last ret @ [l]])
            else find_folds_loop data ls ret)
      else find_folds_loop data ls (ret @ [[l]]))"
  by (cases l) (simp add: continuation_line_def)

lemma find_folds_loop_concat:
  "concat (find_folds_loop data ls ret) =
     concat ret @ (if ret = [] then dropWhile (continuation_line data) ls else ls)"
proof (induction ls arbitrary: ret)
  case Nil
  show ?case by simp
next
  case (Cons l ls)
  show ?case
  proof (cases "continuation_line data l")
    case cont: True
    show ?thesis
    proof (cases "ret = []")
      case True
      with cont Cons.IH [of "[]"] show ?thesis by (simp add: find_folds_loop_step)
    next
      case False
      then have "concat (butlast ret @ [last ret @ [l]]) = concat ret @ [l]"
        by (induction ret rule: rev_induct) simp_all
      with False cont Cons.IH [of "butlast ret @ [last ret @ [l]]"] show ?thesis
        by (simp add: find_folds_loop_step)
    qed
  next
    case False
    with Cons.IH [of "ret @ [[l]]"] show ?thesis by (simp add: find_folds_loop_step)
  qed
qed

lemma find_folds_loop_groups:
  "\<forall>g \<in> set ret. header_group data g \<Longrightarrow>
     \<forall>g \<in> set (find_folds_loop data ls ret). header_group data g"
proof (induction ls arbitrary: ret)
  case Nil
  then show ?case by simp
next
  case (Cons l ls)
  show ?case
  proof (cases "continuation_line data l")
    case cont: True
    show ?thesis
    proof (cases "ret = []")
      case True
      with cont Cons.IH [of "[]"] show ?thesis by (simp add: find_folds_loop_step)
    next
      case False
      then obtain r g where ret: "ret = r @ [g]" by (cases ret rule: rev_cases) auto
      with Cons.prems have "header_group data g" by simp
      with cont have "header_group data (g @ [l])"
        by (cases g) (auto simp: header_group_def)
      with Cons.prems ret have "\<forall>g \<in> set (butlast ret @ [last ret @ [l]]). header_group data g"
        by auto
      from Cons.IH [OF this] False cont show ?thesis
        by (simp add: find_folds_loop_step)
    qed
  next
    case False
    then have "header_group data [l]" by (simp add: header_group_def)
    with Cons.prems have "\<forall>g \<in> set (ret @ [[l]]). header_group data g" by auto
    from Cons.IH [OF this] False show ?thesis by (simp add: find_folds_loop_step)
  qed
qed

lemma find_folds_concat:
  "concat (find_folds data lines) = dropWhile (continuation_line data) (butlast lines)"
  by (simp add: find_folds_def find_folds_loop_concat butlast_conv_take)

lemma find_folds_groups: "\<forall>g \<in> set (find_folds data lines). header_group data g"
  using find_folds_loop_groups [of "[]" data] by (simp add: find_folds_def)

lemma find_folds_nonempty: "[] \<notin> set (find_folds data lines)"
  using find_folds_groups [of data lines] by (auto simp: header_group_def)

text \<open>The dictionary entry of a name after more occurrences \<open>vs\<close> of the header were added
  to it.\<close>

definition extend_values :: "'a list option \<Rightarrow> 'a list \<Rightarrow> 'a list option" where
  "extend_values h vs = (if vs = [] then h else Some ((case h of None \<Rightarrow> [] | Some v \<Rightarrow> v) @ vs))"

lemma parse_headers_loop_spec:
  "[] \<notin> set folds \<Longrightarrow>
   parse_headers_loop data folds headers folded =
     (folded @ map (\<lambda>g. (header_name data g, get_raw data [g])) (kept_folds data folds),
      \<lambda>name. extend_values (headers name)
        (map (line_views data) (filter (\<lambda>g. header_name data g = name) (kept_folds data folds))))"
proof (induction folds arbitrary: headers folded)
  case Nil
  show ?case by (simp add: kept_folds_def extend_values_def)
next
  case (Cons g folds)
  from Cons.prems obtain s e n gr where g: "g = (s, e, n) # gr" by (cases g) auto
  from Cons.prems have rest: "[] \<notin> set folds" by simp
  show ?case
  proof (cases "py_find data (CHR '':'') s e < 0")
    case True
    with g have "\<not> 0 \<le> colon_index data g" by (simp add: colon_index_def)
    with True g Cons.IH [OF rest] show ?thesis by (simp add: kept_folds_def)
  next
    case False
    with g have k: "0 \<le> colon_index data g" by (simp add: colon_index_def)
    let ?name = "lower (strip (slice data s (py_find data (CHR '':'') s e)))"
    have name: "header_name data g = ?name"
      using g by (simp add: header_name_def colon_index_def)
    let ?h = "headers(?name \<mapsto> (case headers ?name of None \<Rightarrow> [] | Some v \<Rightarrow> v) @ [line_views data g])"
    have "parse_headers_loop data (g # folds) headers folded =
        parse_headers_loop data folds ?h (folded @ [(?name, get_raw data [g])])"
      using False g by (simp add: Let_def line_views_def)
    also have "\<dots> = ((folded @ [(?name, get_raw data [g])]) @
          map (\<lambda>g. (header_name data g, get_raw data [g])) (kept_folds data folds),
        \<lambda>name. extend_values (?h name)
          (map (line_views data) (filter (\<lambda>g. header_name data g = name) (kept_folds data folds))))"
      by (rule Cons.IH [OF rest])
    also have "\<dots> = (folded @ map (\<lambda>g. (header_name data g, get_raw data [g])) (kept_folds data (g # folds)),
      \<lambda>name. extend_values (headers name)
        (map (line_views data) (filter (\<lambda>g. header_name data g = name) (kept_folds data (g # folds)))))"
      using k name by (auto simp: kept_folds_def extend_values_def fun_eq_iff split: option.splits)
    finally show ?thesis .
  qed
qed


lemma find_first_takeWhile:
  "0 \<le> find_first p xs k \<Longrightarrow> 0 \<le> k \<Longrightarrow>
     find_first p xs k = k + int (length (takeWhile (\<lambda>x. \<not> p x) xs))"
proof (induction xs arbitrary: k)
  case Nil
  then show ?case by simp
next
  case (Cons x xs)
  show ?case
  proof (cases "p x")
    case True
    then show ?thesis by simp
  next
    case False
    with Cons.prems Cons.IH [of "k + 1"] show ?thesis by simp
  qed
qed

lemma slice_before_find:
  assumes "0 \<le> py_find data c s e"
  shows "slice data s (py_find data c s e) = takeWhile (\<lambda>x. x \<noteq> c) (slice data s e)"
proof -
  let ?n = "py_len data"
  let ?a = "clamp_index ?n s"
  define ys where "ys = drop (nat ?a) data"
  define k where "k = nat (clamp_index ?n e - ?a)"
  define m where "m = length (takeWhile (\<lambda>x. x \<noteq> c) (take k ys))"
  have xs: "slice data s e = take k ys"
    by (simp add: slice_def Let_def ys_def k_def)
  have a: "0 \<le> ?a" using clamp_index_range [of ?n s] by (simp add: py_len_def)
  from assms have "0 \<le> find_first (\<lambda>x. x = c) (take k ys) ?a"
    by (simp add: py_find_def xs)
  from find_first_takeWhile [OF this a]
  have r: "py_find data c s e = ?a + int m" by (simp add: py_find_def xs m_def)
  from py_find_range(2) [OF assms] assms
  have cl: "clamp_index ?n (py_find data c s e) = py_find data c s e"
    by (simp add: clamp_index_def)
  have "slice data s (py_find data c s e) = take (nat (py_find data c s e - ?a)) ys"
    by (simp add: slice_def Let_def cl ys_def)
  also have "\<dots> = take m ys" by (simp add: r)
  also have "\<dots> = take m (take k ys)"
  proof -
    have "m \<le> length (take k ys)" unfolding m_def by (rule length_takeWhile_le)
    then have "m \<le> k" by simp
    then show ?thesis by (simp add: min_absorb1)
  qed
  also have "\<dots> = takeWhile (\<lambda>x. x \<noteq> c) (take k ys)"
    unfolding m_def by (rule takeWhile_eq_take [symmetric])
  finally show ?thesis by (simp add: xs)
qed

lemma py_find_negative: "py_find data c s e < 0 \<longleftrightarrow> c \<notin> set (slice data s e)"
proof -
  have "0 \<le> clamp_index (py_len data) s"
    using clamp_index_range [of "py_len data" s] by (simp add: py_len_def)
  then show ?thesis by (auto simp: py_find_def find_first_negative)
qed

lemma header_parse_folded_index:
  "mh_folded (header_parse data lines) =
     map (\<lambda>g. (header_name data g, get_raw data [g])) (kept_folds data (find_folds data lines))"
  "header_index (mh_parsed (header_parse data lines)) name =
     (case filter (\<lambda>g. header_name data g = name) (kept_folds data (find_folds data lines)) of
        [] \<Rightarrow> None
      | g # gs \<Rightarrow> Some (map (line_views data) (g # gs)))"
  using parse_headers_loop_spec [where folds = "find_folds data lines" and data = data
      and headers = Map.empty and folded = "[]", OF find_folds_nonempty]
  by (simp_all add: header_parse_def parse_headers_def extend_values_def split: list.splits)

text \<open>
  C6. Header parsing of a header region. The folds are the lines of the region but the
  last one, without the leading lines whose first byte is whitespace, cut into groups;
  each group starts with a line whose first byte is not whitespace and goes on with the
  lines after it whose first byte is. The groups kept are those whose first line has a
  colon; the name of a kept group is what stands before the first colon of its first
  line, stripped and lower-cased. The folded sequence has one entry for each kept group,
  in the order of the source and with repeated names; the index maps a name to the
  sequence of the line views of the kept groups of that name, in order, and has no entry
  for any other name.
\<close>

theorem header_parse_folds:
  "concat (find_folds data lines) = dropWhile (continuation_line data) (butlast lines) \<and>
   (\<forall>g \<in> set (find_folds data lines).
      g \<noteq> [] \<and> \<not> continuation_line data (hd g) \<and> (\<forall>l \<in> set (tl g). continuation_line data l)) \<and>
   kept_folds data (find_folds data lines) =
     filter (\<lambda>g. CHR '':'' \<in> set (slice data (fst (hd g)) (fst (snd (hd g)))))
       (find_folds data lines) \<and>
   (\<forall>g \<in> set (kept_folds data (find_folds data lines)).
      header_name data g =
        lower (strip (takeWhile (\<lambda>x. x \<noteq> CHR '':'') (slice data (fst (hd g)) (fst (snd (hd g))))))) \<and>
   mh_folded (header_parse data lines) =
     map (\<lambda>g. (header_name data g, get_raw data [g])) (kept_folds data (find_folds data lines)) \<and>
   header_index (mh_parsed (header_parse data lines)) name =
     (case filter (\<lambda>g. header_name data g = name) (kept_folds data (find_folds data lines)) of
        [] \<Rightarrow> None
      | g # gs \<Rightarrow> Some (map (line_views data) (g # gs)))"
proof (intro conjI)
  show "concat (find_folds data lines) = dropWhile (continuation_line data) (butlast lines)"
    by (rule find_folds_concat)
  show "\<forall>g \<in> set (find_folds data lines).
      g \<noteq> [] \<and> \<not> continuation_line data (hd g) \<and> (\<forall>l \<in> set (tl g). continuation_line data l)"
    using find_folds_groups [of data lines] by (simp add: header_group_def)
  have "(0 \<le> colon_index data g) = (CHR '':'' \<in> set (slice data (fst (hd g)) (fst (snd (hd g)))))"
    for g :: "line list"
    using py_find_negative [of data "CHR '':''" "fst (hd g)" "fst (snd (hd g))"]
    by (cases "hd g") (auto simp: colon_index_def)
  then show "kept_folds data (find_folds data lines) =
     filter (\<lambda>g. CHR '':'' \<in> set (slice data (fst (hd g)) (fst (snd (hd g)))))
       (find_folds data lines)"
    by (simp add: kept_folds_def)
  show "\<forall>g \<in> set (kept_folds data (find_folds data lines)).
      header_name data g =
        lower (strip (takeWhile (\<lambda>x. x \<noteq> CHR '':'') (slice data (fst (hd g)) (fst (snd (hd g))))))"
  proof
    fix g assume "g \<in> set (kept_folds data (find_folds data lines))"
    then have k: "0 \<le> colon_index data g" by (simp add: kept_folds_def)
    obtain s e n where h: "hd g = (s, e, n)" by (cases "hd g")
    with k have "0 \<le> py_find data (CHR '':'') s e" by (simp add: colon_index_def)
    from slice_before_find [OF this] h
    show "header_name data g =
        lower (strip (takeWhile (\<lambda>x. x \<noteq> CHR '':'') (slice data (fst (hd g)) (fst (snd (hd g))))))"
      by (simp add: header_name_def colon_index_def)
  qed
  show "mh_folded (header_parse data lines) =
     map (\<lambda>g. (header_name data g, get_raw data [g])) (kept_folds data (find_folds data lines))"
    by (rule header_parse_folded_index)
  show "header_index (mh_parsed (header_parse data lines)) name =
     (case filter (\<lambda>g. header_name data g = name) (kept_folds data (find_folds data lines)) of
        [] \<Rightarrow> None
      | g # gs \<Rightarrow> Some (map (line_views data) (g # gs)))"
    by (rule header_parse_folded_index)
qed

theorem header_parse_folds_witness:
  "continuation_line
     (''A: b'' @ [CHR 0x0A] @ '' c'' @ [CHR 0x0A] @ ''bad'' @ [CHR 0x0A] @ ''a : d'' @ [CHR 0x0A, CHR 0x0A])
     (5, 7, 8) \<and>
   mh_folded (header_parse
     (''A: b'' @ [CHR 0x0A] @ '' c'' @ [CHR 0x0A] @ ''bad'' @ [CHR 0x0A] @ ''a : d'' @ [CHR 0x0A, CHR 0x0A])
     [(0, 4, 5), (5, 7, 8), (8, 11, 12), (12, 17, 18), (18, 18, 19)])
     = [(''a'', ''A: b'' @ [CHR 0x0A] @ '' c'' @ [CHR 0x0A]), (''a'', ''a : d'' @ [CHR 0x0A])] \<and>
   header_index (mh_parsed (header_parse
     (''A: b'' @ [CHR 0x0A] @ '' c'' @ [CHR 0x0A] @ ''bad'' @ [CHR 0x0A] @ ''a : d'' @ [CHR 0x0A, CHR 0x0A])
     [(0, 4, 5), (5, 7, 8), (8, 11, 12), (12, 17, 18), (18, 18, 19)])) ''a''
     = Some [[''A: b'', '' c''], [''a : d'']]"
proof (intro conjI)
  let ?d = "''A: b'' @ [CHR 0x0A] @ '' c'' @ [CHR 0x0A] @ ''bad'' @ [CHR 0x0A] @ ''a : d'' @ [CHR 0x0A, CHR 0x0A]"
  let ?ls = "[(0, 4, 5), (5, 7, 8), (8, 11, 12), (12, 17, 18), (18, 18, 19)] :: line list"
  note t = header_parse_folds [of ?d ?ls "''a''"]
  have folds: "find_folds ?d ?ls = [[(0, 4, 5), (5, 7, 8)], [(8, 11, 12)], [(12, 17, 18)]]"
    by code_simp
  from t have "\<forall>g \<in> set (find_folds ?d ?ls). \<forall>l \<in> set (tl g). continuation_line ?d l"
    by blast
  then have "\<forall>g \<in> set [[(0, 4, 5), (5, 7, 8)], [(8, 11, 12)], [(12, 17, 18)]].
      \<forall>l \<in> set (tl g). continuation_line ?d l"
    unfolding folds .
  then show "continuation_line ?d (5, 7, 8)"
    by simp
  have kept: "kept_folds ?d (find_folds ?d ?ls) = [[(0, 4, 5), (5, 7, 8)], [(12, 17, 18)]]"
    unfolding folds by code_simp
  have names: "header_name ?d [(0, 4, 5), (5, 7, 8)] = ''a''" "header_name ?d [(12, 17, 18)] = ''a''"
    by code_simp+
  have raws: "get_raw ?d [[(0, 4, 5), (5, 7, 8)]] = ''A: b'' @ [CHR 0x0A] @ '' c'' @ [CHR 0x0A]"
    "get_raw ?d [[(12, 17, 18)]] = ''a : d'' @ [CHR 0x0A]"
    by code_simp+
  have views: "line_views ?d [(0, 4, 5), (5, 7, 8)] = [''A: b'', '' c'']"
    "line_views ?d [(12, 17, 18)] = [''a : d'']"
    by code_simp+
  from t have "mh_folded (header_parse ?d ?ls) =
     map (\<lambda>g. (header_name ?d g, get_raw ?d [g])) (kept_folds ?d (find_folds ?d ?ls))"
    by blast
  then show "mh_folded (header_parse ?d ?ls)
     = [(''a'', ''A: b'' @ [CHR 0x0A] @ '' c'' @ [CHR 0x0A]), (''a'', ''a : d'' @ [CHR 0x0A])]"
    by (simp only: kept list.map names raws)
  from t have "header_index (mh_parsed (header_parse ?d ?ls)) ''a'' =
     (case filter (\<lambda>g. header_name ?d g = ''a'') (kept_folds ?d (find_folds ?d ?ls)) of
        [] \<Rightarrow> None
      | g # gs \<Rightarrow> Some (map (line_views ?d) (g # gs)))"
    by blast
  then show "header_index (mh_parsed (header_parse ?d ?ls)) ''a''
     = Some [[''A: b'', '' c''], [''a : d'']]"
    by (simp only: kept filter.simps names if_True list.case list.map views refl)
qed


section \<open>Properties of the body\<close>

lemma body_parse_multipart:
  assumes "maintype c = str ''multipart''" and "params c (str ''boundary'') = Some b"
    and "b \<noteq> []" and "\<forall>x \<in> set b. x < 128"
  shows "body_parse P data lines (Some c) =
      MultipartBody (get_raw data [lines]) (py_len lines) c
        (map (content_parse P data) (find_parts data lines (map char_of b)))"
  using assms
  by (simp add: body_parse.simps multipart_parse_body.simps get_boundary_def encode_ascii_def Let_def)

lemma body_parse_rfc822:
  assumes "maintype c = str ''message''" and "subtype c = str ''rfc822''"
  shows "body_parse P data lines (Some c) =
      RFC822Body (mc_raw (content_parse P data lines)) (mc_lines (content_parse P data lines)) c
        [content_parse P data lines]"
  using assms
  by (simp add: body_parse.simps rfc822_parse_body.simps rfc822_init_def str_def Let_def)

lemma body_parse_singlepart:
  assumes "\<not> (maintype c = str ''multipart'' \<and>
        (\<exists>b. params c (str ''boundary'') = Some b \<and> b \<noteq> [] \<and> (\<forall>x \<in> set b. x < 128)))"
    and "\<not> (maintype c = str ''message'' \<and> subtype c = str ''rfc822'')"
  shows "body_parse P data lines (Some c) =
      SinglepartBody (get_raw data [lines]) (py_len lines) c"
  using assms
  by (auto simp: body_parse.simps get_boundary_def encode_ascii_def singlepart_parse_body_def
      Let_def split: option.splits)

text \<open>
  C4. The body of a content is parsed from the lines after the header with what
  \<open>header.parsed.content_type\<close> gives, which is \<open>None\<close> when the header has no
  \<open>Content-Type\<close> or the value does not parse. With \<open>None\<close> the type is the default
  \<open>text/plain\<close> and the body is a single part. With main type \<open>multipart\<close> and a
  \<open>boundary\<close> parameter that is not empty and all ASCII, the body is a multipart body whose
  parts are the parsed groups of lines that the part scan finds. With \<open>message/rfc822\<close> the
  body has nested parts, exactly one: all the lines of the body parsed as a content. In
  every other case, a \<open>multipart\<close> with no such boundary among them, the body is a single
  part: \<open>has_nested\<close> is false and \<open>nested\<close> is empty.
\<close>

theorem body_parse_variants:
  "mc_body (content_parse P data lines) =
     body_parse P data (snd (split_lines data lines))
       (parsed_content_type P (mh_parsed (header_parse data (fst (split_lines data lines))))) \<and>
   (parsed_content_type P h = None \<longleftrightarrow>
      header_index h ''content-type'' = None \<or>
      (\<exists>v. header_index h ''content-type'' = Some v \<and> P v = None)) \<and>
   body_parse P data lines None = SinglepartBody (get_raw data [lines]) (py_len lines) default_type \<and>
   maintype default_type = str ''text'' \<and> subtype default_type = str ''plain'' \<and>
   (\<forall>b. maintype c = str ''multipart'' \<and> params c (str ''boundary'') = Some b \<and>
        b \<noteq> [] \<and> (\<forall>x \<in> set b. x < 128) \<longrightarrow>
      body_parse P data lines (Some c) =
        MultipartBody (get_raw data [lines]) (py_len lines) c
          (map (content_parse P data) (find_parts data lines (map char_of b)))) \<and>
   (maintype c = str ''message'' \<and> subtype c = str ''rfc822'' \<longrightarrow>
      has_nested (body_parse P data lines (Some c)) \<and>
      nested (body_parse P data lines (Some c)) = [content_parse P data lines] \<and>
      mb_content_type (body_parse P data lines (Some c)) = c) \<and>
   (\<not> (maintype c = str ''multipart'' \<and>
        (\<exists>b. params c (str ''boundary'') = Some b \<and> b \<noteq> [] \<and> (\<forall>x \<in> set b. x < 128))) \<and>
    \<not> (maintype c = str ''message'' \<and> subtype c = str ''rfc822'') \<longrightarrow>
      body_parse P data lines (Some c) = SinglepartBody (get_raw data [lines]) (py_len lines) c \<and>
      \<not> has_nested (body_parse P data lines (Some c)) \<and>
      nested (body_parse P data lines (Some c)) = [])"
proof (intro conjI allI impI)
  show "mc_body (content_parse P data lines) =
     body_parse P data (snd (split_lines data lines))
       (parsed_content_type P (mh_parsed (header_parse data (fst (split_lines data lines)))))"
    by (simp add: content_parse.simps [of P data lines] Let_def split: prod.splits)
  show "parsed_content_type P h = None \<longleftrightarrow>
      header_index h ''content-type'' = None \<or>
      (\<exists>v. header_index h ''content-type'' = Some v \<and> P v = None)"
    by (simp add: parsed_content_type_def split: option.splits)
  show "body_parse P data lines None = SinglepartBody (get_raw data [lines]) (py_len lines) default_type"
    by (simp add: body_parse.simps default_type_def str_def singlepart_parse_body_def)
  show "maintype default_type = str ''text''" "subtype default_type = str ''plain''"
    by (simp_all add: default_type_def)
next
  fix b
  assume "maintype c = str ''multipart'' \<and> params c (str ''boundary'') = Some b \<and>
        b \<noteq> [] \<and> (\<forall>x \<in> set b. x < 128)"
  then show "body_parse P data lines (Some c) =
        MultipartBody (get_raw data [lines]) (py_len lines) c
          (map (content_parse P data) (find_parts data lines (map char_of b)))"
    by (simp add: body_parse_multipart)
next
  assume a: "maintype c = str ''message'' \<and> subtype c = str ''rfc822''"
  then show "has_nested (body_parse P data lines (Some c))"
    "nested (body_parse P data lines (Some c)) = [content_parse P data lines]"
    "mb_content_type (body_parse P data lines (Some c)) = c"
    by (simp_all add: body_parse_rfc822)
next
  assume a: "\<not> (maintype c = str ''multipart'' \<and>
        (\<exists>b. params c (str ''boundary'') = Some b \<and> b \<noteq> [] \<and> (\<forall>x \<in> set b. x < 128))) \<and>
    \<not> (maintype c = str ''message'' \<and> subtype c = str ''rfc822'')"
  then have s: "body_parse P data lines (Some c) = SinglepartBody (get_raw data [lines]) (py_len lines) c"
    by (intro body_parse_singlepart) blast+
  then show "body_parse P data lines (Some c) = SinglepartBody (get_raw data [lines]) (py_len lines) c" .
  from s show "\<not> has_nested (body_parse P data lines (Some c))"
    "nested (body_parse P data lines (Some c)) = []"
    by simp_all
qed


theorem body_parse_variants_witness:
  "body_parse (\<lambda>v. None) ''x'' [(0, 1, 1)] None = SinglepartBody ''x'' 1 default_type \<and>
   body_parse (\<lambda>v. None) (''--X'' @ [CHR 0x0A] @ ''a'' @ [CHR 0x0A] @ ''--X--'')
       [(0, 3, 4), (4, 5, 6), (6, 11, 11)]
       (Some \<lparr>maintype = str ''multipart'', subtype = str ''mixed'',
              params = [str ''boundary'' \<mapsto> str ''X'']\<rparr>)
     = MultipartBody (''--X'' @ [CHR 0x0A] @ ''a'' @ [CHR 0x0A] @ ''--X--'') 3
         \<lparr>maintype = str ''multipart'', subtype = str ''mixed'',
           params = [str ''boundary'' \<mapsto> str ''X'']\<rparr>
         [content_parse (\<lambda>v. None) (''--X'' @ [CHR 0x0A] @ ''a'' @ [CHR 0x0A] @ ''--X--'')
            [(4, 5, 6)]] \<and>
   nested (body_parse (\<lambda>v. None) ''x'' [(0, 1, 1)]
       (Some \<lparr>maintype = str ''message'', subtype = str ''rfc822'', params = Map.empty\<rparr>))
     = [content_parse (\<lambda>v. None) ''x'' [(0, 1, 1)]] \<and>
   body_parse (\<lambda>v. None) ''x'' [(0, 1, 1)]
       (Some \<lparr>maintype = str ''multipart'', subtype = str ''mixed'', params = Map.empty\<rparr>)
     = SinglepartBody ''x'' 1
         \<lparr>maintype = str ''multipart'', subtype = str ''mixed'', params = Map.empty\<rparr>"
proof (intro conjI)
  have raw: "get_raw ''x'' [[(0, 1, 1)]] = ''x''" "py_len [(0::int, 1::int, 1::int)] = 1"
    by (simp_all add: get_raw_def slice_def clamp_index_def py_len_def)
  from body_parse_variants [of "\<lambda>v. None" "''x''" "[(0, 1, 1)]"]
  have "body_parse (\<lambda>v. None) ''x'' [(0, 1, 1)] None
      = SinglepartBody (get_raw ''x'' [[(0, 1, 1)]]) (py_len [(0::int, 1::int, 1::int)]) default_type"
    by blast
  then show "body_parse (\<lambda>v. None) ''x'' [(0, 1, 1)] None = SinglepartBody ''x'' 1 default_type"
    by (simp only: raw)
next
  let ?d = "''--X'' @ [CHR 0x0A] @ ''a'' @ [CHR 0x0A] @ ''--X--''"
  let ?ls = "[(0, 3, 4), (4, 5, 6), (6, 11, 11)] :: line list"
  let ?c = "\<lparr>maintype = str ''multipart'', subtype = str ''mixed'',
              params = [str ''boundary'' \<mapsto> str ''X'']\<rparr>"
  have h: "maintype ?c = str ''multipart'' \<and> params ?c (str ''boundary'') = Some (str ''X'') \<and>
        str ''X'' \<noteq> [] \<and> (\<forall>x \<in> set (str ''X''). x < 128)"
    by (simp add: str_def)
  have parts: "find_parts ?d ?ls (map char_of (str ''X'')) = [[(4, 5, 6)]]"
    by code_simp
  have raw: "get_raw ?d [?ls] = ?d" "py_len ?ls = 3"
    by (simp_all add: get_raw_def slice_def clamp_index_def py_len_def)
  from body_parse_variants [of "\<lambda>v. None" ?d ?ls _ ?c] h
  have "body_parse (\<lambda>v. None) ?d ?ls (Some ?c) =
        MultipartBody (get_raw ?d [?ls]) (py_len ?ls) ?c
          (map (content_parse (\<lambda>v. None) ?d) (find_parts ?d ?ls (map char_of (str ''X''))))"
    by blast
  then show "body_parse (\<lambda>v. None) ?d ?ls (Some ?c)
     = MultipartBody ?d 3 ?c [content_parse (\<lambda>v. None) ?d [(4, 5, 6)]]"
    by (simp only: parts raw list.map)
next
  let ?c = "\<lparr>maintype = str ''message'', subtype = str ''rfc822'', params = Map.empty\<rparr>"
  have h: "maintype ?c = str ''message'' \<and> subtype ?c = str ''rfc822''"
    by simp
  from body_parse_variants [of "\<lambda>v. None" "''x''" "[(0, 1, 1)]" _ ?c] h
  show "nested (body_parse (\<lambda>v. None) ''x'' [(0, 1, 1)] (Some ?c))
     = [content_parse (\<lambda>v. None) ''x'' [(0, 1, 1)]]"
    by blast
next
  let ?c = "\<lparr>maintype = str ''multipart'', subtype = str ''mixed'', params = Map.empty\<rparr>"
  have raw: "get_raw ''x'' [[(0, 1, 1)]] = ''x''" "py_len [(0::int, 1::int, 1::int)] = 1"
    by (simp_all add: get_raw_def slice_def clamp_index_def py_len_def)
  have h: "\<not> (maintype ?c = str ''multipart'' \<and>
        (\<exists>b. params ?c (str ''boundary'') = Some b \<and> b \<noteq> [] \<and> (\<forall>x \<in> set b. x < 128))) \<and>
    \<not> (maintype ?c = str ''message'' \<and> subtype ?c = str ''rfc822'')"
    by (simp add: str_def)
  from body_parse_variants [of "\<lambda>v. None" "''x''" "[(0, 1, 1)]" _ ?c] h
  have "body_parse (\<lambda>v. None) ''x'' [(0, 1, 1)] (Some ?c)
      = SinglepartBody (get_raw ''x'' [[(0, 1, 1)]]) (py_len [(0::int, 1::int, 1::int)]) ?c"
    by blast
  then show "body_parse (\<lambda>v. None) ''x'' [(0, 1, 1)] (Some ?c) = SinglepartBody ''x'' 1 ?c"
    by (simp only: raw)
qed

text \<open>The two kinds of marker line of the specification: a line "byte-equal to
  \<open>--boundary\<close>" and a line "byte-equal to \<open>--boundary--\<close>".\<close>

definition part_marker :: "bytes \<Rightarrow> bytes \<Rightarrow> line \<Rightarrow> bool" where
  "part_marker data boundary l = (slice data (fst l) (fst (snd l)) = ''--'' @ boundary)"

definition stop_marker :: "bytes \<Rightarrow> bytes \<Rightarrow> line \<Rightarrow> bool" where
  "stop_marker data boundary l = (slice data (fst l) (fst (snd l)) = ''--'' @ boundary @ ''--'')"

text \<open>The specification's scan, in its words: the lines are cut at the marker lines; the
  first piece is what stands before the first marker, every marker opens a new piece.\<close>

fun split_at_markers :: "('a \<Rightarrow> bool) \<Rightarrow> 'a list \<Rightarrow> 'a list list" where
  "split_at_markers m [] = [[]]"
| "split_at_markers m (l # ls) =
     (if m l then [] # split_at_markers m ls
      else (l # hd (split_at_markers m ls)) # tl (split_at_markers m ls))"

lemma split_at_markers_nonempty: "split_at_markers m ls \<noteq> []"
  by (induction ls) auto

lemma split_at_markers_hd_tl:
  "hd (split_at_markers m ls) # tl (split_at_markers m ls) = split_at_markers m ls"
  by (simp add: split_at_markers_nonempty)

lemma find_parts_loop_chunks:
  fixes data p s
  defines "part \<equiv> \<lambda>l :: line. slice data (fst l) (fst (snd l)) = p"
    and "stop \<equiv> \<lambda>l :: line. slice data (fst l) (fst (snd l)) = s"
  shows "find_parts_loop data [p, p] [s, s] ls ret =
     (let chunks = split_at_markers part (takeWhile (\<lambda>l. \<not> stop l) ls)
      in if ret = [] then tl chunks else butlast ret @ [last ret @ hd chunks] @ tl chunks)"
proof (induction ls arbitrary: ret)
  case Nil
  show ?case by (simp add: Let_def)
next
  case (Cons l ls)
  obtain st en nx where l: "l = (st, en, nx)" by (cases l)
  let ?C = "split_at_markers part (takeWhile (\<lambda>l. \<not> stop l) ls)"
  show ?case
  proof (cases "stop l")
    case True
    with l show ?thesis by (simp add: stop_def Let_def)
  next
    case nostop: False
    show ?thesis
    proof (cases "part l")
      case True
      have "find_parts_loop data [p, p] [s, s] (l # ls) ret
          = find_parts_loop data [p, p] [s, s] ls (ret @ [[]])"
        using nostop True l by (simp add: stop_def part_def)
      also have "\<dots> = ret @ ?C"
        by (simp add: Cons.IH [of "ret @ [[]]"] Let_def split_at_markers_hd_tl)
      finally show ?thesis using nostop True by (simp add: Let_def)
    next
      case nopart: False
      show ?thesis
      proof (cases "ret = []")
        case True
        have "find_parts_loop data [p, p] [s, s] (l # ls) ret
            = find_parts_loop data [p, p] [s, s] ls ret"
          using nostop nopart l True by (simp add: stop_def part_def)
        with True nostop nopart show ?thesis by (simp add: Cons.IH [of "[]"] Let_def)
      next
        case False
        have "find_parts_loop data [p, p] [s, s] (l # ls) ret
            = find_parts_loop data [p, p] [s, s] ls (butlast ret @ [last ret @ [l]])"
          using nostop nopart l False by (simp add: stop_def part_def)
        with False nostop nopart show ?thesis
          by (simp add: Cons.IH [of "butlast ret @ [last ret @ [l]]"] Let_def)
      qed
    qed
  qed
qed

lemma find_parts_chunks:
  "find_parts data lines boundary =
     tl (split_at_markers (part_marker data boundary)
           (takeWhile (\<lambda>l. \<not> stop_marker data boundary l) lines))"
  using find_parts_loop_chunks [of data "''--'' @ boundary" "''--'' @ boundary @ ''--''" lines "[]"]
  by (simp add: find_parts_def part_marker_def [abs_def] stop_marker_def [abs_def] Let_def)

lemma length_split_at_markers:
  "length (split_at_markers m ls) = Suc (length (filter m ls))"
  by (induction ls) (auto simp: split_at_markers_nonempty)

lemma concat_tl_split_at_markers:
  "concat (tl (split_at_markers m ls)) = filter (\<lambda>l. \<not> m l) (dropWhile (\<lambda>l. \<not> m l) ls)"
proof (induction ls)
  case Nil
  show ?case by simp
next
  case (Cons l ls)
  have c: "concat (split_at_markers m ls) = filter (\<lambda>l. \<not> m l) ls" for ls :: "'a list"
  proof (induction ls)
    case Nil
    show ?case by simp
  next
    case (Cons a ls)
    have "concat (split_at_markers m ls)
        = hd (split_at_markers m ls) @ concat (tl (split_at_markers m ls))"
      by (cases "split_at_markers m ls") (simp_all add: split_at_markers_nonempty)
    with Cons show ?case by simp
  qed
  show ?case
  proof (cases "m l")
    case True
    then show ?thesis by (simp add: c)
  next
    case False
    with Cons show ?thesis by simp
  qed
qed

text \<open>
  C5. \<^verbatim>\<open>_find_parts\<close> is the specification's scan of the lines of a multipart body with
  boundary \<open>B\<close>: the scan stops at the first line equal to \<open>--B--\<close>, so that this line and
  the lines after it (the epilogue) are in no part; the lines before it are cut at the
  lines equal to \<open>--B\<close>, each of which opens a new part, the first of them part 0, and is
  in no part itself; the lines before the first \<open>--B\<close> (the preamble) are in no part.
  There are as many parts as lines equal to \<open>--B\<close> before the stop, and the lines of the
  parts, in order, are the other lines between the first \<open>--B\<close> and the stop. The body's
  nested sequence is the parts, each parsed as a content, and it is empty when no line is
  a marker.
\<close>

theorem find_parts_scan:
  "find_parts data lines boundary =
     tl (split_at_markers (part_marker data boundary)
           (takeWhile (\<lambda>l. \<not> stop_marker data boundary l) lines)) \<and>
   length (find_parts data lines boundary) =
     length (filter (part_marker data boundary)
       (takeWhile (\<lambda>l. \<not> stop_marker data boundary l) lines)) \<and>
   concat (find_parts data lines boundary) =
     filter (\<lambda>l. \<not> part_marker data boundary l)
       (dropWhile (\<lambda>l. \<not> part_marker data boundary l)
          (takeWhile (\<lambda>l. \<not> stop_marker data boundary l) lines)) \<and>
   multipart_parse_body P data lines ct boundary =
     MultipartBody (get_raw data [lines]) (py_len lines) ct
       (map (content_parse P data) (find_parts data lines boundary)) \<and>
   ((\<forall>l \<in> set lines. \<not> part_marker data boundary l \<and> \<not> stop_marker data boundary l) \<longrightarrow>
      has_nested (multipart_parse_body P data lines ct boundary) \<and>
      nested (multipart_parse_body P data lines ct boundary) = [])"
proof (intro conjI impI)
  show f: "find_parts data lines boundary =
     tl (split_at_markers (part_marker data boundary)
           (takeWhile (\<lambda>l. \<not> stop_marker data boundary l) lines))"
    by (rule find_parts_chunks)
  show "length (find_parts data lines boundary) =
     length (filter (part_marker data boundary)
       (takeWhile (\<lambda>l. \<not> stop_marker data boundary l) lines))"
    by (simp add: f length_split_at_markers)
  show "concat (find_parts data lines boundary) =
     filter (\<lambda>l. \<not> part_marker data boundary l)
       (dropWhile (\<lambda>l. \<not> part_marker data boundary l)
          (takeWhile (\<lambda>l. \<not> stop_marker data boundary l) lines))"
    by (simp only: f concat_tl_split_at_markers)
  show m: "multipart_parse_body P data lines ct boundary =
     MultipartBody (get_raw data [lines]) (py_len lines) ct
       (map (content_parse P data) (find_parts data lines boundary))"
    by (simp add: multipart_parse_body.simps Let_def)
  assume none: "\<forall>l \<in> set lines. \<not> part_marker data boundary l \<and> \<not> stop_marker data boundary l"
  then have "filter (part_marker data boundary)
       (takeWhile (\<lambda>l. \<not> stop_marker data boundary l) lines) = []"
    by (auto simp: filter_empty_conv dest: set_takeWhileD)
  then have "length (find_parts data lines boundary) = 0"
    by (simp add: f length_split_at_markers)
  then show "has_nested (multipart_parse_body P data lines ct boundary)"
    "nested (multipart_parse_body P data lines ct boundary) = []"
    by (simp_all add: m)
qed


theorem find_parts_scan_witness:
  "nested (multipart_parse_body (\<lambda>v. None) ''a'' [(0, 1, 1)] default_type ''X'') = [] \<and>
   find_parts
     (''p'' @ [CHR 0x0A] @ ''--X'' @ [CHR 0x0A] @ ''a'' @ [CHR 0x0A] @ ''--X'' @ [CHR 0x0A] @
      ''b'' @ [CHR 0x0A] @ ''--X--'' @ [CHR 0x0A] @ ''e'')
     [(0, 1, 2), (2, 5, 6), (6, 7, 8), (8, 11, 12), (12, 13, 14), (14, 19, 20), (20, 21, 21)] ''X''
     = [[(6, 7, 8)], [(12, 13, 14)]]"
proof
  have h: "\<forall>l \<in> set [(0, 1, 1)]. \<not> part_marker ''a'' ''X'' l \<and> \<not> stop_marker ''a'' ''X'' l"
    by (simp add: part_marker_def stop_marker_def slice_def clamp_index_def py_len_def)
  from find_parts_scan [of "''a''" "[(0, 1, 1)]" "''X''" "\<lambda>v. None" default_type] h
  show "nested (multipart_parse_body (\<lambda>v. None) ''a'' [(0, 1, 1)] default_type ''X'') = []"
    by blast
next
  let ?d = "''p'' @ [CHR 0x0A] @ ''--X'' @ [CHR 0x0A] @ ''a'' @ [CHR 0x0A] @ ''--X'' @ [CHR 0x0A] @
      ''b'' @ [CHR 0x0A] @ ''--X--'' @ [CHR 0x0A] @ ''e''"
  let ?ls = "[(0, 1, 2), (2, 5, 6), (6, 7, 8), (8, 11, 12), (12, 13, 14), (14, 19, 20), (20, 21, 21)]
      :: line list"
  have ev: "tl (split_at_markers (part_marker ?d ''X'')
           (takeWhile (\<lambda>l. \<not> stop_marker ?d ''X'' l) ?ls)) = [[(6, 7, 8)], [(12, 13, 14)]]"
    by code_simp
  show "find_parts ?d ?ls ''X'' = [[(6, 7, 8)], [(12, 13, 14)]]"
    unfolding find_parts_scan [of ?d ?ls "''X''" "\<lambda>v. None" default_type, THEN conjunct1]
    by (rule ev)
qed


section \<open>Properties of \<^verbatim>\<open>walk\<close>\<close>

text \<open>A position in a content tree is the list of the indices to follow from the root,
  child by child; \<open>part_at\<close> is the content at a position, if there is one, and
  \<open>positions\<close> lists the positions of a tree, the root first and then those below each
  child in order.\<close>

fun part_at :: "message_content \<Rightarrow> nat list \<Rightarrow> message_content option" where
  "part_at c [] = Some c"
| "part_at c (i # p) =
     (if i < length (nested (mc_body c)) then part_at (nested (mc_body c) ! i) p else None)"

function positions :: "message_content \<Rightarrow> nat list list" where
  "positions c =
     [] # concat (map (\<lambda>i. map ((#) i) (positions (nested (mc_body c) ! i)))
                   [0..<length (nested (mc_body c))])"
  by pat_completeness auto
termination
proof (relation "measure size", goal_cases)
  case 1
  show ?case by simp
next
  case (2 c i)
  then have "nested (mc_body c) ! i \<in> set (nested (mc_body c))" by simp
  then have "size (nested (mc_body c) ! i) < size (mc_body c)" by (rule nested_size)
  also have "\<dots> < size c" by (rule body_size)
  finally show ?case by simp
qed

declare positions.simps [simp del]

lemma walk_unfold: "walk c = c # concat (map walk (nested (mc_body c)))"
  by (cases "mc_body c") (simp_all add: walk.simps [of c])

lemma map_upt_nth: "map (\<lambda>i. f (xs ! i)) [0..<length xs] = map f xs"
proof -
  have "map (\<lambda>i. f (xs ! i)) [0..<length xs] = map f (map ((!) xs) [0..<length xs])"
    by (simp add: comp_def)
  also have "\<dots> = map f xs" by (simp only: map_nth)
  finally show ?thesis .
qed

lemma walk_positions: "map Some (walk c) = map (part_at c) (positions c)"
proof (induction c rule: walk.induct)
  case (1 c)
  let ?ps = "nested (mc_body c)"
  have ih: "map Some (walk p) = map (part_at p) (positions p)" if "p \<in> set ?ps" for p
  proof (cases "has_nested (mc_body c)")
    case True
    from True that show ?thesis by (rule "1.IH")
  next
    case False
    with that show ?thesis by (cases "mc_body c") simp_all
  qed
  have "map (part_at c) (positions c) =
      Some c # concat (map (\<lambda>i. map (part_at c) (map ((#) i) (positions (?ps ! i)))) [0..<length ?ps])"
    by (subst positions.simps) (simp add: map_concat comp_def)
  also have "(map (\<lambda>i. map (part_at c) (map ((#) i) (positions (?ps ! i)))) [0..<length ?ps])
      = (map (\<lambda>i. map Some (walk (?ps ! i))) [0..<length ?ps])"
    by (rule map_cong) (simp_all add: ih comp_def)
  also have "\<dots> = map (\<lambda>p. map Some (walk p)) ?ps"
    by (rule map_upt_nth)
  finally show ?case
    by (subst walk_unfold) (simp add: map_concat comp_def)
qed

lemma positions_valid: "p \<in> set (positions c) \<longleftrightarrow> part_at c p \<noteq> None"
proof (induction p arbitrary: c)
  case Nil
  show ?case by (subst positions.simps) simp
next
  case (Cons i p)
  let ?ps = "nested (mc_body c)"
  have "i # p \<in> set (positions c) \<longleftrightarrow>
      (\<exists>j < length ?ps. i # p \<in> (#) j ` set (positions (?ps ! j)))"
    by (subst positions.simps) auto
  also have "\<dots> \<longleftrightarrow> i < length ?ps \<and> p \<in> set (positions (?ps ! i))"
    by auto
  also have "\<dots> \<longleftrightarrow> part_at c (i # p) \<noteq> None"
    by (simp add: Cons.IH)
  finally show ?case .
qed

lemma positions_sorted: "sorted_wrt (<) (positions c)"
proof (induction c rule: positions.induct)
  case (1 c)
  let ?ps = "nested (mc_body c)"
  let ?f = "\<lambda>i. map ((#) i) (positions (?ps ! i))"
  have each: "sorted_wrt (<) (?f i)" if "i < length ?ps" for i
  proof -
    from that have "sorted_wrt (<) (positions (?ps ! i))" by (simp add: "1.IH")
    then show ?thesis by (simp add: sorted_wrt_map)
  qed
  have cc: "sorted_wrt (<) (concat (map ?f [0..<n]))" if "n \<le> length ?ps" for n
    using that
  proof (induction n)
    case 0
    show ?case by simp
  next
    case (Suc n)
    then have "sorted_wrt (<) (concat (map ?f [0..<n]))" by simp
    moreover from Suc.prems have "sorted_wrt (<) (?f n)" by (simp add: each)
    moreover have "\<forall>x \<in> set (concat (map ?f [0..<n])). \<forall>y \<in> set (?f n). x < y"
      by auto
    ultimately show ?case by (simp add: sorted_wrt_append)
  qed
  have "sorted_wrt (<) (concat (map ?f [0..<length ?ps]))" by (rule cc) simp
  moreover have "\<forall>y \<in> set (concat (map ?f [0..<length ?ps])). [] < y" by auto
  ultimately show ?case by (subst positions.simps) simp
qed


text \<open>Two messages, and what the header parser makes of their \<open>Content-Type\<close> headers.
  The first is the multipart message of the specification's scenario 5, with two parts;
  in the second the first of the two parts is a multipart itself, with one part.\<close>

definition example_parser :: content_type_parser where
  "example_parser values =
     (if values = [[''Content-Type: multipart/mixed; boundary=X'']]
      then Some \<lparr>maintype = str ''multipart'', subtype = str ''mixed'',
                  params = [str ''boundary'' \<mapsto> str ''X'']\<rparr>
      else if values = [[''Content-Type: multipart/mixed; boundary=Y'']]
      then Some \<lparr>maintype = str ''multipart'', subtype = str ''mixed'',
                  params = [str ''boundary'' \<mapsto> str ''Y'']\<rparr>
      else None)"

definition two_part_message :: bytes where
  "two_part_message =
     ''Content-Type: multipart/mixed; boundary=X'' @ [CHR 0x0A, CHR 0x0A] @
     ''--X'' @ [CHR 0x0A, CHR 0x0A] @ ''a'' @ [CHR 0x0A] @
     ''--X'' @ [CHR 0x0A, CHR 0x0A] @ ''b'' @ [CHR 0x0A] @
     ''--X--''"

definition nested_two_part_message :: bytes where
  "nested_two_part_message =
     ''Content-Type: multipart/mixed; boundary=X'' @ [CHR 0x0A, CHR 0x0A] @
     ''--X'' @ [CHR 0x0A] @
     ''Content-Type: multipart/mixed; boundary=Y'' @ [CHR 0x0A, CHR 0x0A] @
     ''--Y'' @ [CHR 0x0A, CHR 0x0A] @ ''a'' @ [CHR 0x0A] @
     ''--Y--'' @ [CHR 0x0A] @
     ''--X'' @ [CHR 0x0A, CHR 0x0A] @ ''b'' @ [CHR 0x0A] @
     ''--X--''"


text \<open>
  C7 says that a multipart with two parts yields exactly three entries. The walk goes on
  below each part: for the second message, a multipart with two parts, it has four
  entries.
\<close>

theorem walk_two_parts_counterexample:
  "has_nested (mc_body (parse example_parser nested_two_part_message)) \<and>
   length (nested (mc_body (parse example_parser nested_two_part_message))) = 2 \<and>
   length (walk (parse example_parser nested_two_part_message)) = 4"
  by code_simp

text \<open>
  C7, amended. \<open>walk\<close> yields the content itself and then, in order, the walk of each
  nested part. Its entries are the contents at the positions of the tree, one entry for
  each position: every position of a content is listed, none twice, and in the order in
  which a position comes before those below it and before those of the parts after it.
  A content whose body has no nested parts yields itself only, and a multipart with two
  parts neither of which has nested parts yields exactly three entries.
\<close>

theorem walk_preorder:
  "walk c = c # concat (map walk (nested (mc_body c))) \<and>
   map Some (walk c) = map (part_at c) (positions c) \<and>
   (\<forall>p. p \<in> set (positions c) \<longleftrightarrow> part_at c p \<noteq> None) \<and>
   distinct (positions c) \<and>
   sorted_wrt (<) (positions c) \<and>
   (\<not> has_nested (mc_body c) \<longrightarrow> walk c = [c]) \<and>
   (\<forall>p1 p2. nested (mc_body c) = [p1, p2] \<and>
        \<not> has_nested (mc_body p1) \<and> \<not> has_nested (mc_body p2) \<longrightarrow>
      walk c = [c, p1, p2])"
proof (intro conjI allI impI)
  show "walk c = c # concat (map walk (nested (mc_body c)))" by (rule walk_unfold)
  show "map Some (walk c) = map (part_at c) (positions c)" by (rule walk_positions)
  show "p \<in> set (positions c) \<longleftrightarrow> part_at c p \<noteq> None" for p by (rule positions_valid)
  show "sorted_wrt (<) (positions c)" by (rule positions_sorted)
  then show "distinct (positions c)" by (simp add: strict_sorted_iff)
next
  assume "\<not> has_nested (mc_body c)"
  then show "walk c = [c]" by (simp add: walk.simps [of c])
next
  fix p1 p2
  assume "nested (mc_body c) = [p1, p2] \<and>
        \<not> has_nested (mc_body p1) \<and> \<not> has_nested (mc_body p2)"
  then show "walk c = [c, p1, p2]"
    by (simp add: walk_unfold [of c] walk.simps [of p1] walk.simps [of p2])
qed


theorem walk_preorder_witness:
  "walk (parse example_parser two_part_message) =
     [parse example_parser two_part_message,
      hd (nested (mc_body (parse example_parser two_part_message))),
      hd (tl (nested (mc_body (parse example_parser two_part_message))))] \<and>
   walk (parse (\<lambda>v. None) ''Subject: x'') = [parse (\<lambda>v. None) ''Subject: x'']"
proof
  let ?c = "parse example_parser two_part_message"
  let ?p1 = "hd (nested (mc_body ?c))"
  let ?p2 = "hd (tl (nested (mc_body ?c)))"
  have "length (nested (mc_body ?c)) = 2" by code_simp
  then have n: "nested (mc_body ?c) = [?p1, ?p2]"
    by (cases "nested (mc_body ?c)"; cases "tl (nested (mc_body ?c))") auto
  have l: "\<not> has_nested (mc_body ?p1)" "\<not> has_nested (mc_body ?p2)"
    by code_simp+
  from walk_preorder [of ?c] n l show "walk ?c = [?c, ?p1, ?p2]"
    by blast
next
  have "\<not> has_nested (mc_body (parse (\<lambda>v. None) ''Subject: x''))" by code_simp
  with walk_preorder [of "parse (\<lambda>v. None) ''Subject: x''"]
  show "walk (parse (\<lambda>v. None) ''Subject: x'') = [parse (\<lambda>v. None) ''Subject: x'']"
    by blast
qed


section \<open>Properties of the raw buffers\<close>

text \<open>What the line scan guarantees of its lines, and what every run of them keeps: each
  line starts where the line before it ends (with its terminator), and lies in the
  data.\<close>

fun contiguous :: "line list \<Rightarrow> bool" where
  "contiguous [] = True"
| "contiguous [l] = True"
| "contiguous (l # m # ls) = (snd (snd l) = fst m \<and> contiguous (m # ls))"

definition in_range :: "bytes \<Rightarrow> line \<Rightarrow> bool" where
  "in_range data l = (0 \<le> fst l \<and> fst l \<le> snd (snd l) \<and> snd (snd l) \<le> py_len data)"

definition scanned :: "bytes \<Rightarrow> line list \<Rightarrow> bool" where
  "scanned data ls = (contiguous ls \<and> (\<forall>l \<in> set ls. in_range data l))"

lemma contiguous_append:
  "contiguous (xs @ ys) \<longleftrightarrow>
     contiguous xs \<and> contiguous ys \<and> (xs \<noteq> [] \<and> ys \<noteq> [] \<longrightarrow> snd (snd (last xs)) = fst (hd ys))"
proof (induction xs rule: contiguous.induct)
  case 1
  show ?case by simp
next
  case (2 l)
  show ?case by (cases ys) auto
next
  case (3 l m ls)
  then show ?case by auto
qed

lemma scanned_append:
  "scanned data (xs @ ys) \<longleftrightarrow>
     scanned data xs \<and> scanned data ys \<and>
     (xs \<noteq> [] \<and> ys \<noteq> [] \<longrightarrow> snd (snd (last xs)) = fst (hd ys))"
  by (auto simp: scanned_def contiguous_append)

lemma scanned_span:
  "scanned data ls \<Longrightarrow> ls \<noteq> [] \<Longrightarrow>
     0 \<le> fst (hd ls) \<and> fst (hd ls) \<le> snd (snd (last ls)) \<and> snd (snd (last ls)) \<le> py_len data"
proof (induction ls rule: contiguous.induct)
  case 1
  then show ?case by simp
next
  case (2 l)
  then show ?case by (simp add: scanned_def in_range_def)
next
  case (3 l m ls)
  from "3.prems" have "scanned data (m # ls)" by (simp add: scanned_def)
  with "3.IH" have "fst m \<le> snd (snd (last (m # ls)))" "snd (snd (last (m # ls))) \<le> py_len data"
    by simp_all
  moreover from "3.prems" have "0 \<le> fst l" "fst l \<le> snd (snd l)" "snd (snd l) = fst m"
    by (simp_all add: scanned_def in_range_def)
  ultimately show ?case by simp
qed

lemma slice_append:
  assumes "0 \<le> a" "a \<le> m" "m \<le> c" "c \<le> py_len data"
  shows "slice data a m @ slice data m c = slice data a c"
proof -
  from assms have cl: "clamp_index (py_len data) a = a" "clamp_index (py_len data) m = m"
    "clamp_index (py_len data) c = c"
    by (simp_all add: clamp_index_def)
  have "take (nat (c - a)) (drop (nat a) data)
      = take (nat (m - a) + nat (c - m)) (drop (nat a) data)"
    using assms by (simp add: nat_add_distrib [symmetric])
  also have "\<dots> = take (nat (m - a)) (drop (nat a) data)
      @ take (nat (c - m)) (drop (nat (m - a)) (drop (nat a) data))"
    by (rule take_add)
  also have "drop (nat (m - a)) (drop (nat a) data) = drop (nat m) data"
    using assms by (simp add: nat_add_distrib [symmetric])
  finally show ?thesis by (simp add: slice_def Let_def cl)
qed

text \<open>The bytes of a run of lines of the data: the bytes of each line with its
  terminator, one line after the other.\<close>

definition line_bytes :: "bytes \<Rightarrow> line list \<Rightarrow> bytes" where
  "line_bytes data ls = concat (map (\<lambda>l. slice data (fst l) (snd (snd l))) ls)"

lemma line_bytes_append: "line_bytes data (xs @ ys) = line_bytes data xs @ line_bytes data ys"
  by (simp add: line_bytes_def)

lemma slice_line_bytes:
  "scanned data ls \<Longrightarrow> ls \<noteq> [] \<Longrightarrow>
     slice data (fst (hd ls)) (snd (snd (last ls))) = line_bytes data ls"
proof (induction ls rule: contiguous.induct)
  case 1
  then show ?case by simp
next
  case (2 l)
  show ?case by (simp add: line_bytes_def)
next
  case (3 l m ls)
  from "3.prems" have sc: "scanned data (m # ls)" by (simp add: scanned_def)
  from scanned_span [OF sc]
  have sp: "fst m \<le> snd (snd (last (m # ls)))" "snd (snd (last (m # ls))) \<le> py_len data"
    by simp_all
  from "3.prems" have l: "0 \<le> fst l" "fst l \<le> snd (snd l)" "snd (snd l) = fst m"
    by (simp_all add: scanned_def in_range_def)
  have "slice data (fst l) (snd (snd (last (m # ls))))
      = slice data (fst l) (fst m) @ slice data (fst m) (snd (snd (last (m # ls))))"
    using l sp by (intro slice_append [symmetric]) simp_all
  also have "slice data (fst m) (snd (snd (last (m # ls)))) = line_bytes data (m # ls)"
    using "3.IH" [OF sc] by simp
  finally have "slice data (fst l) (snd (snd (last (m # ls))))
      = slice data (fst l) (snd (snd l)) @ line_bytes data (m # ls)"
    using l by simp
  then show ?case by (simp add: line_bytes_def)
qed

lemma get_raw_single:
  assumes "scanned data ls"
  shows "get_raw data [ls] = line_bytes data ls"
proof (cases "ls = []")
  case True
  then show ?thesis by (simp add: get_raw_def line_bytes_def)
next
  case False
  then have "get_raw data [ls] = slice data (fst (hd ls)) (snd (snd (last ls)))"
    by (simp add: get_raw_def)
  with assms False show ?thesis by (simp add: slice_line_bytes)
qed

lemma get_raw_pair:
  assumes "scanned data (h @ b)" and "h \<noteq> []" and "b \<noteq> []"
  shows "get_raw data [h, b] = line_bytes data (h @ b)"
proof -
  from assms(2,3) have "get_raw data [h, b]
      = slice data (fst (hd (h @ b))) (snd (snd (last (h @ b))))"
    by (simp add: get_raw_def)
  also from assms have "\<dots> = line_bytes data (h @ b)"
    by (intro slice_line_bytes) simp_all
  finally show ?thesis .
qed

lemma find_lines_loop_step:
  "find_lines_loop data start ret =
     (if py_find data (CHR 0x0A) start (py_len data) < 0
      then ret @ [(start, py_len data, py_len data)]
      else find_lines_loop data (py_find data (CHR 0x0A) start (py_len data) + 1)
             (ret @ [(start,
                if py_find data (CHR 0x0A) start (py_len data) - 1 \<ge> start \<and>
                   data ! nat (py_find data (CHR 0x0A) start (py_len data) - 1) = CHR 0x0D
                then py_find data (CHR 0x0A) start (py_len data) - 1
                else py_find data (CHR 0x0A) start (py_len data),
                py_find data (CHR 0x0A) start (py_len data) + 1)]))"
  by (subst find_lines_loop.simps) (simp only: Let_def)

lemma find_lines_loop_scanned:
  assumes "scanned data ret" and "0 \<le> start" and "start \<le> py_len data"
    and "ret \<noteq> [] \<longrightarrow> snd (snd (last ret)) = start"
  shows "scanned data (find_lines_loop data start ret)"
  using assms
proof (induction data start ret rule: find_lines_loop.induct)
  case (1 data start ret)
  let ?idx = "py_find data (CHR 0x0A) start (py_len data)"
  show ?case
  proof (cases "?idx < 0")
    case True
    have "scanned data (ret @ [(start, py_len data, py_len data)])"
      using "1.prems" by (simp add: scanned_append) (simp add: scanned_def in_range_def)
    with True show ?thesis by (simp only: find_lines_loop_step [of data start ret] if_True)
  next
    case False
    then have f: "0 \<le> ?idx" by simp
    from py_find_range(1,2) [OF f] have r: "start \<le> ?idx" "?idx < py_len data" .
    let ?idx' = "if ?idx - 1 \<ge> start \<and> data ! nat (?idx - 1) = CHR 0x0D then ?idx - 1 else ?idx"
    have "scanned data (ret @ [(start, ?idx', ?idx + 1)])"
      using "1.prems" r by (simp add: scanned_append) (simp add: scanned_def in_range_def)
    moreover have "0 \<le> ?idx + 1" "?idx + 1 \<le> py_len data" using r "1.prems" by simp_all
    ultimately have "scanned data (find_lines_loop data (?idx + 1) (ret @ [(start, ?idx', ?idx + 1)]))"
      by (intro "1.IH" [OF refl refl False refl refl refl]) simp_all
    with False show ?thesis by (simp only: find_lines_loop_step [of data start ret] if_False)
  qed
qed

lemma find_lines_scanned: "scanned data (find_lines data)"
  unfolding find_lines_def
  by (rule find_lines_loop_scanned) (simp_all add: scanned_def py_len_def)


text \<open>The scan starts its first line at the first byte and ends its last line after the
  last byte, so that the lines of the scan hold every byte of the data, in order.\<close>

lemma find_lines_loop_hd:
  "ret \<noteq> [] \<Longrightarrow> hd (find_lines_loop data start ret) = hd ret"
proof (induction data start ret rule: find_lines_loop.induct)
  case (1 data start ret)
  let ?idx = "py_find data (CHR 0x0A) start (py_len data)"
  show ?case
  proof (cases "?idx < 0")
    case True
    then have "find_lines_loop data start ret = ret @ [(start, py_len data, py_len data)]"
      by (simp only: find_lines_loop_step [of data start ret] if_True)
    with "1.prems" show ?thesis by simp
  next
    case False
    let ?idx' = "if ?idx - 1 \<ge> start \<and> data ! nat (?idx - 1) = CHR 0x0D then ?idx - 1 else ?idx"
    have "hd (find_lines_loop data (?idx + 1) (ret @ [(start, ?idx', ?idx + 1)]))
        = hd (ret @ [(start, ?idx', ?idx + 1)])"
      by (intro "1.IH" [OF refl refl False refl refl refl]) simp
    moreover from False have "find_lines_loop data start ret
        = find_lines_loop data (?idx + 1) (ret @ [(start, ?idx', ?idx + 1)])"
      by (simp only: find_lines_loop_step [of data start ret] if_False)
    ultimately show ?thesis using "1.prems" by simp
  qed
qed

lemma find_lines_loop_end:
  "snd (snd (last (find_lines_loop data start ret))) = py_len data"
proof (induction data start ret rule: find_lines_loop.induct)
  case (1 data start ret)
  let ?idx = "py_find data (CHR 0x0A) start (py_len data)"
  show ?case
  proof (cases "?idx < 0")
    case True
    then have "find_lines_loop data start ret = ret @ [(start, py_len data, py_len data)]"
      by (simp only: find_lines_loop_step [of data start ret] if_True)
    then show ?thesis by simp
  next
    case False
    let ?idx' = "if ?idx - 1 \<ge> start \<and> data ! nat (?idx - 1) = CHR 0x0D then ?idx - 1 else ?idx"
    from False have "find_lines_loop data start ret
        = find_lines_loop data (?idx + 1) (ret @ [(start, ?idx', ?idx + 1)])"
      by (simp only: find_lines_loop_step [of data start ret] if_False)
    with "1.IH" [OF refl refl False refl refl refl] show ?thesis by simp
  qed
qed

lemma find_lines_hd: "fst (hd (find_lines data)) = 0"
proof -
  let ?idx = "py_find data (CHR 0x0A) 0 (py_len data)"
  show ?thesis
  proof (cases "?idx < 0")
    case True
    then have "find_lines_loop data 0 [] = [] @ [(0, py_len data, py_len data)]"
      by (simp only: find_lines_loop_step [of data 0 "[]"] if_True)
    then show ?thesis by (simp add: find_lines_def)
  next
    case False
    let ?idx' = "if ?idx - 1 \<ge> 0 \<and> data ! nat (?idx - 1) = CHR 0x0D then ?idx - 1 else ?idx"
    from False have "find_lines_loop data 0 []
        = find_lines_loop data (?idx + 1) ([] @ [(0, ?idx', ?idx + 1)])"
      by (simp only: find_lines_loop_step [of data 0 "[]"] if_False)
    moreover have "hd (find_lines_loop data (?idx + 1) ([] @ [(0, ?idx', ?idx + 1)]))
        = hd ([] @ [(0, ?idx', ?idx + 1)])"
      by (intro find_lines_loop_hd) simp
    ultimately show ?thesis by (simp add: find_lines_def)
  qed
qed

lemma line_bytes_find_lines: "line_bytes data (find_lines data) = data"
proof -
  have "slice data (fst (hd (find_lines data))) (snd (snd (last (find_lines data))))
      = line_bytes data (find_lines data)"
    using find_lines_scanned find_lines_nonempty by (rule slice_line_bytes)
  moreover have "snd (snd (last (find_lines data))) = py_len data"
    by (simp add: find_lines_def find_lines_loop_end)
  moreover have "slice data 0 (py_len data) = data"
    by (simp add: slice_def Let_def clamp_index_def py_len_def)
  ultimately show ?thesis by (simp add: find_lines_hd)
qed

text \<open>What \<^verbatim>\<open>MessageContent._parse\<close> makes of the two lists of the split, and which
  buffer each class of body keeps: a \<^verbatim>\<open>_RFC822Body\<close> that of its nested message, the
  other two that of their lines.\<close>

lemma content_parse_parts:
  assumes "split_lines data lines = (h, b)"
  shows "mc_raw (content_parse P data lines) = get_raw data [h, b]"
    and "mc_header (content_parse P data lines) = header_parse data h"
    and "mc_body (content_parse P data lines) =
      body_parse P data b (parsed_content_type P (mh_parsed (header_parse data h)))"
  using assms by (simp_all add: content_parse.simps [of P data lines] Let_def)

lemma header_parse_raw: "mh_raw (header_parse data h) = get_raw data [h]"
  by (simp add: header_parse_def Let_def split: prod.splits)

fun rfc822_body :: "message_body \<Rightarrow> bool" where
  "rfc822_body (RFC822Body raw lines ct nested') = True"
| "rfc822_body (SinglepartBody raw lines ct) = False"
| "rfc822_body (MultipartBody raw lines ct nested') = False"

lemma body_parse_raw:
  "\<not> rfc822_body (body_parse P data lines ct) \<and>
     mb_raw (body_parse P data lines ct) = get_raw data [lines] \<or>
   rfc822_body (body_parse P data lines ct) \<and>
     mb_raw (body_parse P data lines ct) = mc_raw (content_parse P data lines) \<and>
     nested (body_parse P data lines ct) = [content_parse P data lines]"
proof (cases ct)
  case None
  then show ?thesis by (simp add: body_parse_default singlepart_parse_body_def)
next
  case (Some c)
  consider (multi) b where "maintype c = str ''multipart''" "params c (str ''boundary'') = Some b"
      "b \<noteq> []" "\<forall>x \<in> set b. x < 128"
    | (rfc) "maintype c = str ''message''" "subtype c = str ''rfc822''"
    | (single) "\<not> (maintype c = str ''multipart'' \<and>
        (\<exists>b. params c (str ''boundary'') = Some b \<and> b \<noteq> [] \<and> (\<forall>x \<in> set b. x < 128)))"
        "\<not> (maintype c = str ''message'' \<and> subtype c = str ''rfc822'')"
    by blast
  then show ?thesis
  proof cases
    case multi
    then show ?thesis using Some by (simp add: body_parse_multipart)
  next
    case rfc
    then show ?thesis using Some by (simp add: body_parse_rfc822)
  next
    case single
    then show ?thesis using Some by (simp add: body_parse_singlepart)
  qed
qed

lemma split_lines_cases:
  "(split_lines data lines = ([], lines) \<and> (\<forall>x \<in> set lines. \<not> blank_line data x)) \<or>
   (\<exists>a l b. lines = a @ l # b \<and> (\<forall>x \<in> set a. \<not> blank_line data x) \<and> blank_line data l \<and>
      split_lines data lines = (a @ [l], b))"
proof (cases "\<exists>x \<in> set lines. blank_line data x")
  case False
  then show ?thesis by (simp add: split_lines_none)
next
  case True
  then obtain a l b where "lines = a @ l # b" "blank_line data l" "\<forall>x \<in> set a. \<not> blank_line data x"
    using split_list_first_prop [of lines "blank_line data"] by blast
  then show ?thesis using split_lines_first [of a data l b] by blast
qed

lemma split_at_markers_hd_prefix: "\<exists>post. ls = hd (split_at_markers m ls) @ post"
  by (induction ls) auto

lemma split_at_markers_infix:
  "c \<in> set (split_at_markers m ls) \<Longrightarrow> \<exists>pre post. ls = pre @ c @ post"
proof (induction ls arbitrary: c)
  case Nil
  then show ?case by simp
next
  case (Cons l ls)
  let ?S = "split_at_markers m ls"
  show ?case
  proof (cases "m l")
    case True
    with Cons.prems have "c = [] \<or> c \<in> set ?S" by simp
    then show ?thesis
    proof
      assume "c = []"
      then have "l # ls = [] @ c @ (l # ls)" by simp
      then show ?thesis by blast
    next
      assume "c \<in> set ?S"
      from Cons.IH [OF this] obtain pre post where "ls = pre @ c @ post" by blast
      then have "l # ls = (l # pre) @ c @ post" by simp
      then show ?thesis by blast
    qed
  next
    case False
    with Cons.prems have "c = l # hd ?S \<or> c \<in> set (tl ?S)" by simp
    then show ?thesis
    proof
      assume c: "c = l # hd ?S"
      obtain post where "ls = hd ?S @ post" using split_at_markers_hd_prefix by blast
      with c have "l # ls = [] @ c @ post" by simp
      then show ?thesis by blast
    next
      assume "c \<in> set (tl ?S)"
      then have "c \<in> set ?S" by (rule list.set_sel(2) [OF split_at_markers_nonempty])
      from Cons.IH [OF this] obtain pre post where "ls = pre @ c @ post" by blast
      then have "l # ls = (l # pre) @ c @ post" by simp
      then show ?thesis by blast
    qed
  qed
qed

text \<open>A run of lines within the lines of the scan: some lines of the scan come before it
  and some after it.\<close>

definition lines_within :: "line list \<Rightarrow> line list \<Rightarrow> bool" where
  "lines_within full ls = (\<exists>pre post. full = pre @ ls @ post)"

lemma lines_within_suffix: "lines_within full (h @ b) \<Longrightarrow> lines_within full b"
proof -
  assume "lines_within full (h @ b)"
  then obtain pre post where "full = pre @ (h @ b) @ post" by (auto simp: lines_within_def)
  then have "full = (pre @ h) @ b @ post" by simp
  then show ?thesis unfolding lines_within_def by blast
qed

lemma lines_within_infix: "lines_within full (a @ c @ z) \<Longrightarrow> lines_within full c"
proof -
  assume "lines_within full (a @ c @ z)"
  then obtain pre post where "full = pre @ (a @ c @ z) @ post" by (auto simp: lines_within_def)
  then have "full = (pre @ a) @ c @ (z @ post)" by simp
  then show ?thesis unfolding lines_within_def by blast
qed

lemma lines_within_scanned: "lines_within (find_lines data) ls \<Longrightarrow> scanned data ls"
proof -
  assume "lines_within (find_lines data) ls"
  then obtain pre post where "find_lines data = pre @ ls @ post" by (auto simp: lines_within_def)
  with find_lines_scanned [of data] show ?thesis by (simp add: scanned_append)
qed

lemma find_parts_within:
  assumes "lines_within full lines" and "part \<in> set (find_parts data lines boundary)"
  shows "lines_within full part"
proof -
  let ?ls = "takeWhile (\<lambda>l. \<not> stop_marker data boundary l) lines"
  from assms(2) have "part \<in> set (tl (split_at_markers (part_marker data boundary) ?ls))"
    by (simp add: find_parts_chunks)
  then have "part \<in> set (split_at_markers (part_marker data boundary) ?ls)"
    by (rule list.set_sel(2) [OF split_at_markers_nonempty])
  then obtain pre post where "?ls = pre @ part @ post"
    using split_at_markers_infix by blast
  moreover have "lines = ?ls @ dropWhile (\<lambda>l. \<not> stop_marker data boundary l) lines" by simp
  ultimately have "lines = pre @ part @ (post @ dropWhile (\<lambda>l. \<not> stop_marker data boundary l) lines)"
    by (metis append.assoc)
  with assms(1) show ?thesis using lines_within_infix by metis
qed

text \<open>Every content of a tree is parsed from a run of lines within the lines of the
  scan.\<close>

definition parsed_within :: "content_type_parser \<Rightarrow> bytes \<Rightarrow> line list \<Rightarrow> message_content \<Rightarrow> bool" where
  "parsed_within P data full c = (\<exists>ls. lines_within full ls \<and> c = content_parse P data ls)"

lemma all_parts_within:
  "lines_within full lines \<longrightarrow>
     (\<forall>c \<in> set (walk (content_parse P data lines)). parsed_within P data full c)"
  "lines_within full lines \<longrightarrow>
     (\<forall>p \<in> set (nested (body_parse P data lines ct)).
        \<forall>c \<in> set (walk p). parsed_within P data full c)"
  "lines_within full lines \<longrightarrow>
     (\<forall>p \<in> set (nested (multipart_parse_body P data lines ct' boundary)).
        \<forall>c \<in> set (walk p). parsed_within P data full c)"
  "lines_within full lines \<longrightarrow>
     (\<forall>p \<in> set (nested (rfc822_parse_body P data lines ct')).
        \<forall>c \<in> set (walk p). parsed_within P data full c)"
proof (induction P data lines and P data lines ct and P data lines ct' boundary
    and P data lines ct'
    rule: content_parse_body_parse_multipart_parse_body_rfc822_parse_body.induct)
  case (1 P data lines)
  show ?case
  proof
    assume w: "lines_within full lines"
    obtain h b where s: "split_lines data lines = (h, b)" by (cases "split_lines data lines")
    then have "h @ b = lines" by (rule split_lines_append)
    with w have wb: "lines_within full b" using lines_within_suffix by blast
    let ?ct = "parsed_content_type P (mh_parsed (header_parse data h))"
    let ?c = "content_parse P data lines"
    have body: "mc_body ?c = body_parse P data b ?ct"
      using s by (rule content_parse_parts)
    from "1.IH" [OF refl s [symmetric] refl refl] wb
    have "\<forall>p \<in> set (nested (body_parse P data b ?ct)).
        \<forall>c \<in> set (walk p). parsed_within P data full c"
      by simp
    moreover have "parsed_within P data full ?c" using w by (auto simp: parsed_within_def)
    ultimately show "\<forall>c \<in> set (walk ?c). parsed_within P data full c"
      by (subst walk_unfold) (auto simp: body)
  qed
next
  case (2 P data lines ct)
  let ?x = "case ct of None \<Rightarrow> default_type | Some c \<Rightarrow> c"
  show ?case
  proof
    assume w: "lines_within full lines"
    show "\<forall>p \<in> set (nested (body_parse P data lines ct)).
        \<forall>c \<in> set (walk p). parsed_within P data full c"
    proof (cases "maintype ?x = str ''multipart''")
      case multi: True
      show ?thesis
      proof (cases "get_boundary ?x")
        case None
        with multi have "body_parse P data lines ct = singlepart_parse_body data lines ?x"
          by (simp add: body_parse.simps [of P data lines ct] Let_def)
        then show ?thesis by (simp add: singlepart_parse_body_def)
      next
        case (Some x2)
        show ?thesis
        proof (cases "x2 = []")
          case True
          with multi Some have "body_parse P data lines ct = singlepart_parse_body data lines ?x"
            by (simp add: body_parse.simps [of P data lines ct] Let_def)
          then show ?thesis by (simp add: singlepart_parse_body_def)
        next
          case False
          with multi Some
          have "body_parse P data lines ct = multipart_parse_body P data lines ?x x2"
            by (simp add: body_parse.simps [of P data lines ct] Let_def)
          with "2.IH"(1) [OF refl refl multi Some False] w show ?thesis by simp
        qed
      qed
    next
      case nomulti: False
      show ?thesis
      proof (cases "maintype ?x = str ''message'' \<and> subtype ?x = str ''rfc822''")
        case True
        with nomulti have "body_parse P data lines ct = rfc822_parse_body P data lines ?x"
          by (simp add: body_parse.simps [of P data lines ct] Let_def)
        with "2.IH"(2) [OF refl refl nomulti True] w show ?thesis by simp
      next
        case False
        with nomulti have "body_parse P data lines ct = singlepart_parse_body data lines ?x"
          by (auto simp: body_parse.simps [of P data lines ct] Let_def)
        then show ?thesis by (simp add: singlepart_parse_body_def)
      qed
    qed
  qed
next
  case (3 P data lines ct' boundary)
  show ?case
  proof
    assume w: "lines_within full lines"
    have n: "nested (multipart_parse_body P data lines ct' boundary)
        = map (content_parse P data) (find_parts data lines boundary)"
      by (simp add: multipart_parse_body.simps Let_def)
    show "\<forall>p \<in> set (nested (multipart_parse_body P data lines ct' boundary)).
        \<forall>c \<in> set (walk p). parsed_within P data full c"
      unfolding n
    proof
      fix p assume "p \<in> set (map (content_parse P data) (find_parts data lines boundary))"
      then obtain part where part: "part \<in> set (find_parts data lines boundary)"
        and p: "p = content_parse P data part" by auto
      from w part have "lines_within full part" by (rule find_parts_within)
      with "3.IH" [OF refl part] p show "\<forall>c \<in> set (walk p). parsed_within P data full c" by simp
    qed
  qed
next
  case (4 P data lines ct')
  have "nested (rfc822_parse_body P data lines ct') = [content_parse P data lines]"
    by (simp add: rfc822_parse_body.simps rfc822_init_def Let_def)
  with "4.IH" show ?case by simp
qed

text \<open>The buffers of a content parsed from a run of lines of the scan.\<close>

lemma content_parse_buffers:
  assumes "scanned data lines" and "split_lines data lines = (h, b)"
  shows "mh_raw (mc_header (content_parse P data lines)) = line_bytes data h"
    and "h \<noteq> [] \<Longrightarrow> blank_line data (last h)"
    and "\<not> rfc822_body (mc_body (content_parse P data lines)) \<Longrightarrow>
      mb_raw (mc_body (content_parse P data lines)) = line_bytes data b"
    and "rfc822_body (mc_body (content_parse P data lines)) \<Longrightarrow>
      nested (mc_body (content_parse P data lines)) = [content_parse P data b] \<and>
      mb_raw (mc_body (content_parse P data lines)) = mc_raw (content_parse P data b)"
    and "h \<noteq> [] \<Longrightarrow> b \<noteq> [] \<Longrightarrow> mc_raw (content_parse P data lines) = line_bytes data lines"
proof -
  from assms(2) have hb: "h @ b = lines" by (rule split_lines_append)
  with assms(1) have sh: "scanned data h" and sb: "scanned data b"
    by (auto simp: scanned_append)
  note p = content_parse_parts [OF assms(2), of P]
  show "mh_raw (mc_header (content_parse P data lines)) = line_bytes data h"
    using sh by (simp add: p header_parse_raw get_raw_single)
  show "blank_line data (last h)" if "h \<noteq> []"
    using split_lines_cases [of data lines] assms(2) that by auto
  let ?ct = "parsed_content_type P (mh_parsed (header_parse data h))"
  note r = body_parse_raw [of P data b ?ct]
  show "mb_raw (mc_body (content_parse P data lines)) = line_bytes data b"
    if "\<not> rfc822_body (mc_body (content_parse P data lines))"
    using r that sb by (auto simp: p get_raw_single)
  show "nested (mc_body (content_parse P data lines)) = [content_parse P data b] \<and>
      mb_raw (mc_body (content_parse P data lines)) = mc_raw (content_parse P data b)"
    if "rfc822_body (mc_body (content_parse P data lines))"
    using r that by (auto simp: p)
  show "mc_raw (content_parse P data lines) = line_bytes data lines" if "h \<noteq> []" "b \<noteq> []"
    using get_raw_pair [of data h b] assms(1) that by (simp add: p hb)
qed

text \<open>A message whose header ends with a line of one space.\<close>

definition space_line_message :: bytes where
  "space_line_message = ''A: b'' @ [CHR 0x0A] @ '' '' @ [CHR 0x0A] @ ''body''"

text \<open>
  C3 says that the raw buffer of a content is the header's raw buffer, then the blank
  separator line, then the body's raw buffer. The header's lines include the blank line
  that ends them, so its raw buffer already ends with that line: for the message above
  the three pieces together have the separator twice, whether the separator is taken
  with the line feed that ends it or without.
\<close>

theorem raw_separator_counterexample:
  "split_lines space_line_message (find_lines space_line_message)
     = ([(0, 4, 5), (5, 6, 7)], [(7, 11, 11)]) \<and>
   blank_line space_line_message (5, 6, 7) \<and>
   slice space_line_message 5 6 = '' '' \<and>
   slice space_line_message 5 7 = '' '' @ [CHR 0x0A] \<and>
   mc_raw (parse (\<lambda>v. None) space_line_message) = space_line_message \<and>
   mh_raw (mc_header (parse (\<lambda>v. None) space_line_message))
     = ''A: b'' @ [CHR 0x0A] @ '' '' @ [CHR 0x0A] \<and>
   mb_raw (mc_body (parse (\<lambda>v. None) space_line_message)) = ''body'' \<and>
   mc_raw (parse (\<lambda>v. None) space_line_message) \<noteq>
     mh_raw (mc_header (parse (\<lambda>v. None) space_line_message)) @
     slice space_line_message 5 7 @
     mb_raw (mc_body (parse (\<lambda>v. None) space_line_message)) \<and>
   mc_raw (parse (\<lambda>v. None) space_line_message) \<noteq>
     mh_raw (mc_header (parse (\<lambda>v. None) space_line_message)) @
     slice space_line_message 5 6 @
     mb_raw (mc_body (parse (\<lambda>v. None) space_line_message))"
  by code_simp

text \<open>A multipart message with one part, which has a header of its own.\<close>

definition part_message :: bytes where
  "part_message =
     ''Content-Type: multipart/mixed; boundary=X'' @ [CHR 0x0A, CHR 0x0A] @
     ''--X'' @ [CHR 0x0A] @
     ''A: b'' @ [CHR 0x0A, CHR 0x0A] @ ''body'' @ [CHR 0x0A] @
     ''--X--''"

text \<open>
  C3, amended. Every content of the tree that \<open>parse\<close> returns, the root and every nested
  part, is parsed from a run of lines of the scan of the input, and the bytes of the
  lines before the run, of the run and of the lines after it make up the input. The
  header's raw buffer is the bytes of the header lines of the run; when there are header
  lines, the last of them is the blank separator line and the header's raw buffer ends
  with the bytes of that line. The raw buffer of a body that is not a \<open>message/rfc822\<close>
  body is the bytes of the body lines, and that of a \<open>message/rfc822\<close> body is the raw
  buffer of its nested message, which is parsed from the body lines. When the run has
  header lines and body lines, the raw buffer of the content is the bytes of the run;
  and when moreover the body is not a \<open>message/rfc822\<close> body, or is one whose nested
  message has header lines and body lines, the raw buffer of the content is the header's
  raw buffer followed by the body's raw buffer, the separator line standing once, at the
  end of the header's. For the root the run is all the lines and its raw buffer is the
  input.
\<close>

theorem raw_is_header_then_body:
  "(\<forall>c \<in> set (walk (parse P data)). \<exists>pre lines post.
       find_lines data = pre @ lines @ post \<and> c = content_parse P data lines) \<and>
   (find_lines data = pre @ lines @ post \<and> split_lines data lines = (h, b) \<longrightarrow>
      data = line_bytes data pre @ line_bytes data lines @ line_bytes data post \<and>
      line_bytes data lines = line_bytes data h @ line_bytes data b \<and>
      mh_raw (mc_header (content_parse P data lines)) = line_bytes data h \<and>
      (h \<noteq> [] \<longrightarrow>
         blank_line data (last h) \<and>
         mh_raw (mc_header (content_parse P data lines)) =
           line_bytes data (butlast h) @ line_bytes data [last h]) \<and>
      (\<not> rfc822_body (mc_body (content_parse P data lines)) \<longrightarrow>
         mb_raw (mc_body (content_parse P data lines)) = line_bytes data b) \<and>
      (rfc822_body (mc_body (content_parse P data lines)) \<longrightarrow>
         nested (mc_body (content_parse P data lines)) = [content_parse P data b] \<and>
         mb_raw (mc_body (content_parse P data lines)) = mc_raw (content_parse P data b)) \<and>
      (h \<noteq> [] \<and> b \<noteq> [] \<longrightarrow>
         mc_raw (content_parse P data lines) = line_bytes data lines) \<and>
      (h \<noteq> [] \<and> b \<noteq> [] \<and>
       (rfc822_body (mc_body (content_parse P data lines)) \<longrightarrow>
          fst (split_lines data b) \<noteq> [] \<and> snd (split_lines data b) \<noteq> []) \<longrightarrow>
         mc_raw (content_parse P data lines) =
           mh_raw (mc_header (content_parse P data lines)) @
           mb_raw (mc_body (content_parse P data lines)))) \<and>
   (fst (split_lines data (find_lines data)) \<noteq> [] \<and>
    snd (split_lines data (find_lines data)) \<noteq> [] \<longrightarrow>
      mc_raw (parse P data) = data)"
proof (intro conjI)
  let ?full = "find_lines data"
  have "lines_within ?full ?full"
    unfolding lines_within_def by (intro exI [of _ "[]"]) simp
  with all_parts_within(1) [where full = ?full and lines = ?full and P = P and data = data]
  have "\<forall>c \<in> set (walk (parse P data)). parsed_within P data ?full c"
    by (simp add: parse_def)
  then show "\<forall>c \<in> set (walk (parse P data)). \<exists>pre lines post.
       find_lines data = pre @ lines @ post \<and> c = content_parse P data lines"
    unfolding parsed_within_def lines_within_def by blast
next
  show "find_lines data = pre @ lines @ post \<and> split_lines data lines = (h, b) \<longrightarrow>
      data = line_bytes data pre @ line_bytes data lines @ line_bytes data post \<and>
      line_bytes data lines = line_bytes data h @ line_bytes data b \<and>
      mh_raw (mc_header (content_parse P data lines)) = line_bytes data h \<and>
      (h \<noteq> [] \<longrightarrow>
         blank_line data (last h) \<and>
         mh_raw (mc_header (content_parse P data lines)) =
           line_bytes data (butlast h) @ line_bytes data [last h]) \<and>
      (\<not> rfc822_body (mc_body (content_parse P data lines)) \<longrightarrow>
         mb_raw (mc_body (content_parse P data lines)) = line_bytes data b) \<and>
      (rfc822_body (mc_body (content_parse P data lines)) \<longrightarrow>
         nested (mc_body (content_parse P data lines)) = [content_parse P data b] \<and>
         mb_raw (mc_body (content_parse P data lines)) = mc_raw (content_parse P data b)) \<and>
      (h \<noteq> [] \<and> b \<noteq> [] \<longrightarrow>
         mc_raw (content_parse P data lines) = line_bytes data lines) \<and>
      (h \<noteq> [] \<and> b \<noteq> [] \<and>
       (rfc822_body (mc_body (content_parse P data lines)) \<longrightarrow>
          fst (split_lines data b) \<noteq> [] \<and> snd (split_lines data b) \<noteq> []) \<longrightarrow>
         mc_raw (content_parse P data lines) =
           mh_raw (mc_header (content_parse P data lines)) @
           mb_raw (mc_body (content_parse P data lines)))"
  proof
    let ?c = "content_parse P data lines"
    assume a: "find_lines data = pre @ lines @ post \<and> split_lines data lines = (h, b)"
    then have f: "find_lines data = pre @ lines @ post" and s: "split_lines data lines = (h, b)"
      by simp_all
    from s have hb: "h @ b = lines" by (rule split_lines_append)
    from f have "lines_within (find_lines data) lines" unfolding lines_within_def by blast
    then have sc: "scanned data lines" by (rule lines_within_scanned)
    with hb have scb: "scanned data b" by (auto simp: scanned_append)
    note t = content_parse_buffers [OF sc s]
    have c1: "data = line_bytes data pre @ line_bytes data lines @ line_bytes data post"
      using line_bytes_find_lines [of data] f by (simp add: line_bytes_append)
    have c2: "line_bytes data lines = line_bytes data h @ line_bytes data b"
      using hb by (simp add: line_bytes_append [symmetric])
    have c3: "mh_raw (mc_header ?c) = line_bytes data h" by (rule t(1))
    have c4: "h \<noteq> [] \<longrightarrow> blank_line data (last h) \<and>
         mh_raw (mc_header ?c) = line_bytes data (butlast h) @ line_bytes data [last h]"
    proof
      assume n: "h \<noteq> []"
      then have "line_bytes data h = line_bytes data (butlast h @ [last h])" by simp
      then have "line_bytes data h = line_bytes data (butlast h) @ line_bytes data [last h]"
        by (simp only: line_bytes_append)
      with t(2) [OF n] c3 show "blank_line data (last h) \<and>
         mh_raw (mc_header ?c) = line_bytes data (butlast h) @ line_bytes data [last h]"
        by simp
    qed
    have c5: "\<not> rfc822_body (mc_body ?c) \<longrightarrow> mb_raw (mc_body ?c) = line_bytes data b"
      using t(3) by blast
    have c6: "rfc822_body (mc_body ?c) \<longrightarrow>
         nested (mc_body ?c) = [content_parse P data b] \<and>
         mb_raw (mc_body ?c) = mc_raw (content_parse P data b)"
      using t(4) by blast
    have c7: "h \<noteq> [] \<and> b \<noteq> [] \<longrightarrow> mc_raw ?c = line_bytes data lines"
      using t(5) by blast
    have c8: "h \<noteq> [] \<and> b \<noteq> [] \<and>
       (rfc822_body (mc_body ?c) \<longrightarrow>
          fst (split_lines data b) \<noteq> [] \<and> snd (split_lines data b) \<noteq> []) \<longrightarrow>
         mc_raw ?c = mh_raw (mc_header ?c) @ mb_raw (mc_body ?c)"
    proof
      assume n: "h \<noteq> [] \<and> b \<noteq> [] \<and>
       (rfc822_body (mc_body ?c) \<longrightarrow>
          fst (split_lines data b) \<noteq> [] \<and> snd (split_lines data b) \<noteq> [])"
      have "mb_raw (mc_body ?c) = line_bytes data b"
      proof (cases "rfc822_body (mc_body ?c)")
        case False
        then show ?thesis by (rule t(3))
      next
        case True
        obtain h' b' where s': "split_lines data b = (h', b')" by (cases "split_lines data b")
        with n True have "h' \<noteq> []" "b' \<noteq> []" by simp_all
        from content_parse_buffers(5) [OF scb s' this, of P] t(4) [OF True]
        show ?thesis by simp
      qed
      with n c7 c2 c3 show "mc_raw ?c = mh_raw (mc_header ?c) @ mb_raw (mc_body ?c)" by simp
    qed
    from c1 c2 c3 c4 c5 c6 c7 c8
    show "data = line_bytes data pre @ line_bytes data lines @ line_bytes data post \<and>
      line_bytes data lines = line_bytes data h @ line_bytes data b \<and>
      mh_raw (mc_header ?c) = line_bytes data h \<and>
      (h \<noteq> [] \<longrightarrow>
         blank_line data (last h) \<and>
         mh_raw (mc_header ?c) = line_bytes data (butlast h) @ line_bytes data [last h]) \<and>
      (\<not> rfc822_body (mc_body ?c) \<longrightarrow> mb_raw (mc_body ?c) = line_bytes data b) \<and>
      (rfc822_body (mc_body ?c) \<longrightarrow>
         nested (mc_body ?c) = [content_parse P data b] \<and>
         mb_raw (mc_body ?c) = mc_raw (content_parse P data b)) \<and>
      (h \<noteq> [] \<and> b \<noteq> [] \<longrightarrow> mc_raw ?c = line_bytes data lines) \<and>
      (h \<noteq> [] \<and> b \<noteq> [] \<and>
       (rfc822_body (mc_body ?c) \<longrightarrow>
          fst (split_lines data b) \<noteq> [] \<and> snd (split_lines data b) \<noteq> []) \<longrightarrow>
         mc_raw ?c = mh_raw (mc_header ?c) @ mb_raw (mc_body ?c))"
      by (intro conjI)
  qed
next
  show "fst (split_lines data (find_lines data)) \<noteq> [] \<and>
    snd (split_lines data (find_lines data)) \<noteq> [] \<longrightarrow>
      mc_raw (parse P data) = data"
  proof
    assume n: "fst (split_lines data (find_lines data)) \<noteq> [] \<and>
      snd (split_lines data (find_lines data)) \<noteq> []"
    obtain h' b' where s: "split_lines data (find_lines data) = (h', b')"
      by (cases "split_lines data (find_lines data)")
    with n have "h' \<noteq> []" "b' \<noteq> []" by simp_all
    from content_parse_buffers(5) [OF find_lines_scanned s this, of P]
    show "mc_raw (parse P data) = data"
      by (simp add: parse_def line_bytes_find_lines)
  qed
qed

theorem raw_is_header_then_body_witness:
  "nested (mc_body (parse example_parser part_message)) =
     [content_parse example_parser part_message [(47, 51, 52), (52, 52, 53), (53, 57, 58)]] \<and>
   mc_raw (hd (nested (mc_body (parse example_parser part_message)))) =
     ''A: b'' @ [CHR 0x0A, CHR 0x0A] @ ''body'' @ [CHR 0x0A] \<and>
   mh_raw (mc_header (hd (nested (mc_body (parse example_parser part_message))))) =
     ''A: b'' @ [CHR 0x0A, CHR 0x0A] \<and>
   mb_raw (mc_body (hd (nested (mc_body (parse example_parser part_message))))) =
     ''body'' @ [CHR 0x0A] \<and>
   mc_raw (hd (nested (mc_body (parse example_parser part_message)))) =
     mh_raw (mc_header (hd (nested (mc_body (parse example_parser part_message))))) @
     mb_raw (mc_body (hd (nested (mc_body (parse example_parser part_message))))) \<and>
   mc_raw (parse example_parser part_message) = part_message"
proof -
  let ?d = part_message
  let ?P = example_parser
  let ?hr = "[(0, 41, 42), (42, 42, 43)] :: line list"
  let ?br = "[(43, 46, 47), (47, 51, 52), (52, 52, 53), (53, 57, 58), (58, 63, 63)] :: line list"
  let ?pre = "[(0, 41, 42), (42, 42, 43), (43, 46, 47)] :: line list"
  let ?part = "[(47, 51, 52), (52, 52, 53), (53, 57, 58)] :: line list"
  let ?post = "[(58, 63, 63)] :: line list"
  let ?h = "[(47, 51, 52), (52, 52, 53)] :: line list"
  let ?b = "[(53, 57, 58)] :: line list"
  let ?c = "content_parse ?P ?d ?part"
  let ?ct = "\<lparr>maintype = str ''multipart'', subtype = str ''mixed'',
                  params = [str ''boundary'' \<mapsto> str ''X'']\<rparr>"

  have fl: "find_lines ?d = ?pre @ ?part @ ?post" by code_simp
  have s0: "split_lines ?d (find_lines ?d) = (?hr, ?br)" by code_simp
  have sp: "split_lines ?d ?part = (?h, ?b)" by code_simp

  have hi: "header_index (mh_parsed (header_parse ?d ?hr)) ''content-type''
      = Some [[''Content-Type: multipart/mixed; boundary=X'']]"
    by code_simp
  then have ct: "parsed_content_type ?P (mh_parsed (header_parse ?d ?hr)) = Some ?ct"
    by (simp add: parsed_content_type_def example_parser_def)
  have bp: "body_parse ?P ?d ?br (Some ?ct) =
      MultipartBody (get_raw ?d [?br]) (py_len ?br) ?ct
        (map (content_parse ?P ?d) (find_parts ?d ?br (map char_of (str ''X''))))"
    by (rule body_parse_multipart) (simp_all add: str_def)
  have fp: "find_parts ?d ?br (map char_of (str ''X'')) = [?part]" by code_simp
  have "mc_body (parse ?P ?d) = body_parse ?P ?d ?br (Some ?ct)"
    unfolding parse_def Let_def content_parse_parts(3) [OF s0] ct ..
  then have nm: "nested (mc_body (parse ?P ?d)) = [?c]"
    unfolding bp fp by simp
  then have part: "hd (nested (mc_body (parse ?P ?d))) = ?c" by simp

  have nr: "\<not> rfc822_body (mc_body ?c)" by code_simp
  have ne: "?h \<noteq> [] \<and> ?b \<noteq> []" by simp
  have lb: "line_bytes ?d ?part = ''A: b'' @ [CHR 0x0A, CHR 0x0A] @ ''body'' @ [CHR 0x0A]"
    "line_bytes ?d ?h = ''A: b'' @ [CHR 0x0A, CHR 0x0A]"
    "line_bytes ?d ?b = ''body'' @ [CHR 0x0A]"
    by code_simp+

  note t = raw_is_header_then_body [where P = ?P and data = ?d and pre = ?pre
      and lines = ?part and post = ?post and h = ?h and b = ?b,
      THEN conjunct2, THEN conjunct1, THEN mp, OF conjI [OF fl sp]]
  note header = t [THEN conjunct2, THEN conjunct2, THEN conjunct1]
  note body = t [THEN conjunct2, THEN conjunct2, THEN conjunct2, THEN conjunct2,
      THEN conjunct1, THEN mp, OF nr]
  note whole = t [THEN conjunct2, THEN conjunct2, THEN conjunct2, THEN conjunct2,
      THEN conjunct2, THEN conjunct2, THEN conjunct1, THEN mp, OF ne]
  have "?h \<noteq> [] \<and> ?b \<noteq> [] \<and>
      (rfc822_body (mc_body ?c) \<longrightarrow>
         fst (split_lines ?d ?b) \<noteq> [] \<and> snd (split_lines ?d ?b) \<noteq> [])"
    using nr by simp
  note both = t [THEN conjunct2, THEN conjunct2, THEN conjunct2, THEN conjunct2,
      THEN conjunct2, THEN conjunct2, THEN conjunct2, THEN mp, OF this]

  have "fst (split_lines ?d (find_lines ?d)) \<noteq> [] \<and> snd (split_lines ?d (find_lines ?d)) \<noteq> []"
    unfolding s0 by simp
  note root = raw_is_header_then_body [where P = ?P and data = ?d,
      THEN conjunct2, THEN conjunct2, THEN mp, OF this]

  show ?thesis
    unfolding part
  proof (intro conjI)
    show "nested (mc_body (parse ?P ?d)) = [?c]" by (rule nm)
    show "mc_raw ?c = ''A: b'' @ [CHR 0x0A, CHR 0x0A] @ ''body'' @ [CHR 0x0A]"
      using whole unfolding lb .
    show "mh_raw (mc_header ?c) = ''A: b'' @ [CHR 0x0A, CHR 0x0A]"
      using header unfolding lb .
    show "mb_raw (mc_body ?c) = ''body'' @ [CHR 0x0A]"
      using body unfolding lb .
    show "mc_raw ?c = mh_raw (mc_header ?c) @ mb_raw (mc_body ?c)" by (rule both)
    show "mc_raw (parse ?P ?d) = ?d" by (rule root)
  qed
qed


section \<open>Messages with no blank line\<close>

lemma slice_to_end:
  assumes "0 \<le> start" and "start < py_len data"
  shows "slice data start (py_len data) \<noteq> [] \<and> last (slice data start (py_len data)) = last data"
proof -
  from assms have "slice data start (py_len data) = drop (nat start) data"
    by (simp add: slice_def Let_def clamp_index_def py_len_def)
  moreover from assms have "nat start < length data" by (simp add: py_len_def)
  ultimately show ?thesis by simp
qed

lemma find_lines_loop_last:
  assumes "0 \<le> start" and "start \<le> py_len data" and "data \<noteq> []" and "last data = CHR 0x0A"
  shows "last (find_lines_loop data start ret) = (py_len data, py_len data, py_len data)"
  using assms
proof (induction data start ret rule: find_lines_loop.induct)
  case (1 data start ret)
  let ?idx = "py_find data (CHR 0x0A) start (py_len data)"
  show ?case
  proof (cases "?idx < 0")
    case True
    then have no: "CHR 0x0A \<notin> set (slice data start (py_len data))"
      by (simp add: py_find_negative)
    have "start = py_len data"
    proof (rule ccontr)
      assume "start \<noteq> py_len data"
      with "1.prems" have "start < py_len data" by simp
      from slice_to_end [OF "1.prems"(1) this] "1.prems"(4) no show False
        by (metis last_in_set)
    qed
    moreover from True have "find_lines_loop data start ret = ret @ [(start, py_len data, py_len data)]"
      by (simp only: find_lines_loop_step [of data start ret] if_True)
    ultimately show ?thesis by simp
  next
    case False
    then have f: "0 \<le> ?idx" by simp
    from py_find_range(1,2) [OF f] have r: "start \<le> ?idx" "?idx < py_len data" .
    with "1.prems" have "0 \<le> ?idx + 1" "?idx + 1 \<le> py_len data" by simp_all
    from "1.IH" [OF refl refl False refl refl refl this "1.prems"(3,4)] False
    show ?thesis by (simp only: find_lines_loop_step [of data start ret] if_False)
  qed
qed

lemma find_lines_last:
  assumes "data \<noteq> []" and "last data = CHR 0x0A"
  shows "last (find_lines data) = (py_len data, py_len data, py_len data)"
  unfolding find_lines_def using assms
  by (intro find_lines_loop_last) (simp_all add: py_len_def)

lemma blank_line_empty: "blank_line data (n, n, m)"
proof -
  have "slice data n n = []" by (simp add: slice_def Let_def)
  then show ?thesis by (simp add: blank_line_def)
qed

lemma body_parse_no_lines: "mb_raw (body_parse P data [] ct) = []"
proof -
  have "split_lines data [] = ([], [])" by (simp add: split_lines_def)
  then have "mc_raw (content_parse P data []) = get_raw data [[], []]"
    by (rule content_parse_parts)
  with body_parse_raw [of P data "[]" ct] show ?thesis by (auto simp: get_raw_def)
qed

lemma get_raw_find_lines: "get_raw data [find_lines data] = data"
  by (simp add: get_raw_single find_lines_scanned line_bytes_find_lines)

text \<open>
  C2 says that an input with no empty or whitespace-only line is all header and has an
  empty body. \<^verbatim>\<open>_split_lines\<close> ends with \<open>return [], lines\<close>: on the ten bytes
  \<open>Subject: x\<close>, one line that is not blank, the header has no line and the body has the
  one line, with all ten bytes.
\<close>

theorem no_blank_line_counterexample:
  "find_lines ''Subject: x'' = [(0, 10, 10)] \<and>
   \<not> blank_line ''Subject: x'' (0, 10, 10) \<and>
   mh_lines (mc_header (parse (\<lambda>v. None) ''Subject: x'')) = 0 \<and>
   mb_lines (mc_body (parse (\<lambda>v. None) ''Subject: x'')) = 1 \<and>
   mb_raw (mc_body (parse (\<lambda>v. None) ''Subject: x'')) = ''Subject: x''"
proof (intro conjI)
  show "find_lines ''Subject: x'' = [(0, 10, 10)]" by code_simp
  show "\<not> blank_line ''Subject: x'' (0, 10, 10)"
    by (simp add: blank_line_def slice_def clamp_index_def py_len_def whitespace_def)
  show "mh_lines (mc_header (parse (\<lambda>v. None) ''Subject: x'')) = 0" by code_simp
  show "mb_lines (mc_body (parse (\<lambda>v. None) ''Subject: x'')) = 1" by code_simp
  show "mb_raw (mc_body (parse (\<lambda>v. None) ''Subject: x'')) = ''Subject: x''" by code_simp
qed

text \<open>
  C2, amended. For an input none of whose lines is empty or whitespace-only, which
  therefore does not end with a line feed, \<open>parse\<close> puts no line in the header and every
  line in the body: the header has no line and no byte, and the body has all the lines
  (at least one), its raw buffer is the input, all of its bytes, and it is a single part.
  For an input that ends with a line feed and has no empty or whitespace-only line before
  the empty last line that the scan adds after that line feed, all lines are header
  lines, the header's raw buffer is the input, and the body is empty.
\<close>

theorem no_blank_line_all_body:
  "((\<forall>l \<in> set (find_lines data). \<not> blank_line data l) \<longrightarrow>
      split_lines data (find_lines data) = ([], find_lines data) \<and>
      mh_lines (mc_header (parse P data)) = 0 \<and>
      mh_raw (mc_header (parse P data)) = [] \<and>
      mb_lines (mc_body (parse P data)) = py_len (find_lines data) \<and>
      mb_lines (mc_body (parse P data)) \<ge> 1 \<and>
      mb_raw (mc_body (parse P data)) = data \<and>
      \<not> has_nested (mc_body (parse P data))) \<and>
   (data \<noteq> [] \<and> last data = CHR 0x0A \<and>
    (\<forall>l \<in> set (butlast (find_lines data)). \<not> blank_line data l) \<longrightarrow>
      split_lines data (find_lines data) = (find_lines data, []) \<and>
      mh_lines (mc_header (parse P data)) = py_len (find_lines data) \<and>
      mh_raw (mc_header (parse P data)) = data \<and>
      mb_raw (mc_body (parse P data)) = [])"
proof (intro conjI impI)
  assume none: "\<forall>l \<in> set (find_lines data). \<not> blank_line data l"
  then show s: "split_lines data (find_lines data) = ([], find_lines data)"
    by (rule split_lines_none)
  note p = content_parse_no_header [OF s, of P]
  from p show "mh_lines (mc_header (parse P data)) = 0" by (simp add: parse_def)
  from p show "mh_raw (mc_header (parse P data)) = []" by (simp add: parse_def)
  from p show "mb_lines (mc_body (parse P data)) = py_len (find_lines data)"
    by (simp add: parse_def)
  from p find_lines_nonempty [of data] show "mb_lines (mc_body (parse P data)) \<ge> 1"
    by (cases "find_lines data") (simp_all add: parse_def py_len_def)
  from p show "mb_raw (mc_body (parse P data)) = data"
    by (simp add: parse_def get_raw_find_lines)
  from p show "\<not> has_nested (mc_body (parse P data))" by (simp add: parse_def)
next
  let ?ls = "find_lines data"
  assume a: "data \<noteq> [] \<and> last data = CHR 0x0A \<and>
    (\<forall>l \<in> set (butlast ?ls). \<not> blank_line data l)"
  then have "last ?ls = (py_len data, py_len data, py_len data)"
    by (simp add: find_lines_last)
  then have "blank_line data (last ?ls)" by (simp add: blank_line_empty)
  with a have "split_lines data (butlast ?ls @ last ?ls # []) = (butlast ?ls @ [last ?ls], [])"
    by (intro split_lines_first) simp_all
  then show s: "split_lines data ?ls = (?ls, [])"
    by (simp add: find_lines_nonempty)
  note p = content_parse_parts [OF s, of P]
  show "mh_lines (mc_header (parse P data)) = py_len ?ls"
    by (simp add: parse_def p header_parse_def Let_def split: prod.splits)
  show "mh_raw (mc_header (parse P data)) = data"
    by (simp add: parse_def p header_parse_raw get_raw_find_lines)
  show "mb_raw (mc_body (parse P data)) = []"
    by (simp add: parse_def p body_parse_no_lines)
qed

theorem no_blank_line_all_body_witness:
  "mh_lines (mc_header (parse (\<lambda>v. None) ''Subject: x'')) = 0 \<and>
   mb_lines (mc_body (parse (\<lambda>v. None) ''Subject: x'')) = 1 \<and>
   mb_raw (mc_body (parse (\<lambda>v. None) ''Subject: x'')) = ''Subject: x'' \<and>
   mh_lines (mc_header (parse (\<lambda>v. None) (''Subject: x'' @ [CHR 0x0A]))) = 2 \<and>
   mh_raw (mc_header (parse (\<lambda>v. None) (''Subject: x'' @ [CHR 0x0A]))) =
     ''Subject: x'' @ [CHR 0x0A] \<and>
   mb_raw (mc_body (parse (\<lambda>v. None) (''Subject: x'' @ [CHR 0x0A]))) = []"
proof -
  let ?d = "''Subject: x''"
  have l: "find_lines ?d = [(0, 10, 10)]"
    by code_simp
  have b: "\<forall>x \<in> set (find_lines ?d). \<not> blank_line ?d x"
    unfolding l by (simp add: blank_line_def slice_def clamp_index_def py_len_def whitespace_def)
  let ?e = "''Subject: x'' @ [CHR 0x0A]"
  have le: "find_lines ?e = [(0, 10, 11), (11, 11, 11)]"
    by code_simp
  have c: "?e \<noteq> [] \<and> last ?e = CHR 0x0A \<and> (\<forall>x \<in> set (butlast (find_lines ?e)). \<not> blank_line ?e x)"
    unfolding le by (simp add: blank_line_def slice_def clamp_index_def py_len_def whitespace_def)
  note first = no_blank_line_all_body [of ?d "\<lambda>v. None", THEN conjunct1, THEN mp, OF b]
  note second = no_blank_line_all_body [of ?e "\<lambda>v. None", THEN conjunct2, THEN mp, OF c]
  have n: "py_len (find_lines ?d) = 1" "py_len (find_lines ?e) = 2"
    unfolding l le by (simp_all add: py_len_def)
  from first n have "mh_lines (mc_header (parse (\<lambda>v. None) ?d)) = 0 \<and>
      mb_lines (mc_body (parse (\<lambda>v. None) ?d)) = 1 \<and>
      mb_raw (mc_body (parse (\<lambda>v. None) ?d)) = ?d"
    by simp
  moreover from second n have "mh_lines (mc_header (parse (\<lambda>v. None) ?e)) = 2 \<and>
      mh_raw (mc_header (parse (\<lambda>v. None) ?e)) = ?e \<and>
      mb_raw (mc_body (parse (\<lambda>v. None) ?e)) = []"
    by simp
  ultimately show ?thesis by (intro conjI) (elim conjE, assumption)+
qed

section \<open>Properties of the demo mailbox loader\<close>

lemma readline_append: "fst (readline b) @ snd (readline b) = b"
proof -
  let ?r = "dropWhile (\<lambda>c. c \<noteq> CHR 0x0A) b"
  have "takeWhile (\<lambda>c. c \<noteq> CHR 0x0A) b @ take 1 ?r @ drop 1 ?r = b"
    by (simp only: append_take_drop_id takeWhile_dropWhile_id)
  then show ?thesis by (simp add: readline_def Let_def)
qed

lemma load_message_unfold:
  "load_message env msg_path =
     (case float env (fst (readline (snd (readline (resource_stream env msg_path))))) of
        Inl e \<Rightarrow> Inl e
      | Inr ts \<Rightarrow>
          (case fromtimestamp env ts of
             Inl e \<Rightarrow> Inl e
           | Inr dt \<Rightarrow>
               Inr (message_parse 0 (snd (readline (snd (readline (resource_stream env msg_path)))))
                      (Flag env ` set (split (fst (readline (resource_stream env msg_path))))
                         - {Recent env}) dt,
                    Recent env \<in> Flag env ` set (split (fst (readline (resource_stream env msg_path)))))))"
proof -
  have d: "A - {x} = A" if "x \<notin> A" for A :: "'c set" and x using that by simp
  show ?thesis
    unfolding load_message_def Let_def case_prod_beta
    by (simp add: d split: sum.split)
qed

lemma load_message_result:
  assumes "load_message env msg_path = Inr (msg, recent)"
  shows "\<exists>ts. float env (fst (readline (snd (readline (resource_stream env msg_path))))) = Inr ts \<and>
           fromtimestamp env ts = Inr (internal_date msg)"
    and "contents msg = snd (readline (snd (readline (resource_stream env msg_path))))"
    and "permanent_flags msg =
           Flag env ` set (split (fst (readline (resource_stream env msg_path)))) - {Recent env}"
    and "recent = (Recent env \<in> Flag env ` set (split (fst (readline (resource_stream env msg_path)))))"
    and "uid msg = 0"
proof -
  let ?tl = "fst (readline (snd (readline (resource_stream env msg_path))))"
  from assms obtain ts where ts: "float env ?tl = Inr ts"
    by (cases "float env ?tl") (simp_all add: load_message_unfold)
  with assms obtain dt where dt: "fromtimestamp env ts = Inr dt"
    by (cases "fromtimestamp env ts") (simp_all add: load_message_unfold)
  from assms ts dt have m: "msg = message_parse 0 (snd (readline (snd (readline (resource_stream env msg_path)))))
                      (Flag env ` set (split (fst (readline (resource_stream env msg_path))))
                         - {Recent env}) dt"
    and r: "recent = (Recent env \<in> Flag env ` set (split (fst (readline (resource_stream env msg_path)))))"
    by (simp_all add: load_message_unfold)
  from ts dt m show "\<exists>ts. float env ?tl = Inr ts \<and> fromtimestamp env ts = Inr (internal_date msg)"
    by (simp add: message_parse_def)
  from m show "contents msg = snd (readline (snd (readline (resource_stream env msg_path))))"
    by (simp add: message_parse_def)
  from m show "permanent_flags msg =
           Flag env ` set (split (fst (readline (resource_stream env msg_path)))) - {Recent env}"
    by (simp add: message_parse_def)
  from r show "recent = (Recent env \<in> Flag env ` set (split (fst (readline (resource_stream env msg_path)))))" .
  from m show "uid msg = 0" by (simp add: message_parse_def)
qed

lemma load_message_succeeds:
  assumes "float env (fst (readline (snd (readline (resource_stream env msg_path))))) = Inr ts"
    and "fromtimestamp env ts = Inr dt"
  shows "\<exists>r. load_message env msg_path = Inr r"
  using assms by (simp add: load_message_unfold)

lemma dot_readonly: "startswith (str ''.readonly'') (str ''.'')"
  by (simp add: startswith_def str_def)

lemma load_demo_mailbox_loop_result:
  "load_demo_mailbox_loop env path names mbx = Inr mbx' \<Longrightarrow>
     readonly mbx' = (readonly mbx \<or> str ''.readonly'' \<in> set names) \<and>
     (\<exists>loaded. added mbx' = added mbx @ loaded \<and>
        map Inr loaded = map (\<lambda>n. load_message env (path_join path n))
          (filter (\<lambda>n. \<not> startswith n (str ''.'')) names))"
proof (induction names arbitrary: mbx)
  case Nil
  then show ?case by simp
next
  case (Cons n names)
  show ?case
  proof (cases "n = str ''.readonly''")
    case True
    with Cons.prems
    have "load_demo_mailbox_loop env path names (mbx\<lparr>readonly := True\<rparr>) = Inr mbx'" by simp
    from Cons.IH [OF this] True dot_readonly show ?thesis by simp
  next
    case ro: False
    show ?thesis
    proof (cases "startswith n (str ''.'')")
      case True
      with ro Cons.prems have "load_demo_mailbox_loop env path names mbx = Inr mbx'" by simp
      from Cons.IH [OF this] True ro show ?thesis by auto
    next
      case False
      with ro Cons.prems obtain msg recent
        where m: "load_message env (path_join path n) = Inr (msg, recent)"
          and l: "load_demo_mailbox_loop env path names (mailbox_add mbx msg recent) = Inr mbx'"
        by (auto simp: Let_def split: sum.splits)
      from Cons.IH [OF l] obtain loaded
        where r: "readonly mbx' = (readonly mbx \<or> str ''.readonly'' \<in> set names)"
          and a: "added mbx' = added mbx @ (msg, recent) # loaded"
          and ld: "map Inr loaded = map (\<lambda>n. load_message env (path_join path n))
            (filter (\<lambda>n. \<not> startswith n (str ''.'')) names)"
        by (auto simp: mailbox_add_def)
      from ld m False have "map Inr ((msg, recent) # loaded) =
          map (\<lambda>n. load_message env (path_join path n))
            (filter (\<lambda>n. \<not> startswith n (str ''.'')) (n # names))"
        by simp
      with r a ro show ?thesis by (intro conjI exI [of _ "(msg, recent) # loaded"]) auto
    qed
  qed
qed

lemma load_demo_mailbox_loop_succeeds:
  "\<forall>n \<in> set names. \<not> startswith n (str ''.'') \<longrightarrow>
      (\<exists>r. load_message env (path_join path n) = Inr r) \<Longrightarrow>
   \<exists>mbx'. load_demo_mailbox_loop env path names mbx = Inr mbx'"
proof (induction names arbitrary: mbx)
  case Nil
  show ?case by simp
next
  case (Cons n names)
  from Cons.prems have rest: "\<forall>n \<in> set names. \<not> startswith n (str ''.'') \<longrightarrow>
      (\<exists>r. load_message env (path_join path n) = Inr r)" by simp
  show ?case
  proof (cases "n = str ''.readonly'' \<or> startswith n (str ''.'')")
    case True
    then show ?thesis using Cons.IH [OF rest] by auto
  next
    case False
    with Cons.prems obtain msg recent where "load_message env (path_join path n) = Inr (msg, recent)"
      by auto
    with False show ?thesis using Cons.IH [OF rest, of "mailbox_add mbx msg recent"]
      by (simp add: Let_def)
  qed
qed


text \<open>A packaged mailbox \<open>INBOX\<close> with the marker \<open>.readonly\<close>, another dot file and one
  message file, \<open>1\<close>, with the flags \<open>\Seen \Recent\<close> and the time stamp 86400; flags stand
  for themselves and time stamps and dates are whole seconds.\<close>

definition example_env :: "(int, int, bytes) env" where
  "example_env =
     \<lparr>resource_listdir =
        (\<lambda>path. if path = str ''demo/INBOX'' then [str ''1'', str ''.readonly'', str ''.hidden'']
                else if path = str ''demo'' then [str ''INBOX'']
                else []),
      resource_stream =
        (\<lambda>path. if path = str ''demo/INBOX/1''
                then [CHR 0x5C] @ ''Seen '' @ [CHR 0x5C] @ ''Recent'' @ [CHR 0x0A] @
                     ''86400'' @ [CHR 0x0A] @
                     ''Subject: x'' @ [CHR 0x0A, CHR 0x0A] @ ''body''
                else []),
      float = (\<lambda>b. if b = ''86400'' @ [CHR 0x0A] then Inr 86400 else Inl ValueError),
      fromtimestamp = (\<lambda>t. Inr t),
      Flag = (\<lambda>b. b),
      Recent = [CHR 0x5C] @ ''Recent''\<rparr>"

text \<open>
  C8. \<^verbatim>\<open>_load_demo_mailbox\<close>. When the loader returns, the mailbox is read-only if it was
  or if the directory has a file \<open>.readonly\<close>, and the messages added to it are those
  loaded from the files whose names do not begin with a dot, in the sorted order of the
  names; it returns when each of these files loads. A file that loads is made of its
  first line, its second line and the remaining bytes: the time stamp is the number read
  from the second line, converted to the date of the message; the data of the message are
  the remaining bytes; the flags of the message are those of the tokens of the first
  line, split at whitespace, without \<open>\Recent\<close>; and the \<open>recent\<close> argument of \<open>add\<close> says
  whether a token of the first line is the flag \<open>\Recent\<close>. A file loads when the two
  conversions of its second line succeed.
\<close>

theorem load_demo_mailbox_files:
  "(load_demo_mailbox env name mbx = Inr mbx' \<longrightarrow>
      readonly mbx' =
        (readonly mbx \<or> str ''.readonly'' \<in> set (resource_listdir env (path_join (str ''demo'') name))) \<and>
      (\<exists>loaded. added mbx' = added mbx @ loaded \<and>
         map Inr loaded =
           map (\<lambda>n. load_message env (path_join (path_join (str ''demo'') name) n))
             (filter (\<lambda>n. \<not> startswith n (str ''.''))
                (sort (resource_listdir env (path_join (str ''demo'') name)))))) \<and>
   ((\<forall>n \<in> set (resource_listdir env (path_join (str ''demo'') name)).
        \<not> startswith n (str ''.'') \<longrightarrow>
        (\<exists>r. load_message env (path_join (path_join (str ''demo'') name) n) = Inr r)) \<longrightarrow>
      (\<exists>mbx''. load_demo_mailbox env name mbx = Inr mbx'')) \<and>
   (load_message env msg_path = Inr (msg, recent) \<longrightarrow>
      (\<exists>ts. float env (fst (readline (snd (readline (resource_stream env msg_path))))) = Inr ts \<and>
            fromtimestamp env ts = Inr (internal_date msg)) \<and>
      contents msg = snd (readline (snd (readline (resource_stream env msg_path)))) \<and>
      permanent_flags msg =
        Flag env ` set (split (fst (readline (resource_stream env msg_path)))) - {Recent env} \<and>
      Recent env \<notin> permanent_flags msg \<and>
      recent = (\<exists>t \<in> set (split (fst (readline (resource_stream env msg_path)))).
                  Flag env t = Recent env)) \<and>
   fst (readline (resource_stream env msg_path)) @
     fst (readline (snd (readline (resource_stream env msg_path)))) @
     snd (readline (snd (readline (resource_stream env msg_path))))
     = resource_stream env msg_path \<and>
   (float env (fst (readline (snd (readline (resource_stream env msg_path))))) = Inr ts \<and>
    fromtimestamp env ts = Inr dt \<longrightarrow>
      (\<exists>r. load_message env msg_path = Inr r))"
proof (intro conjI impI)
  let ?path = "path_join (str ''demo'') name"
  {
    assume "load_demo_mailbox env name mbx = Inr mbx'"
    then have l: "load_demo_mailbox_loop env ?path (sort (resource_listdir env ?path)) mbx = Inr mbx'"
      by (simp add: load_demo_mailbox_def Let_def)
    from load_demo_mailbox_loop_result [OF l]
    show "readonly mbx' = (readonly mbx \<or> str ''.readonly'' \<in> set (resource_listdir env ?path))"
      and "\<exists>loaded. added mbx' = added mbx @ loaded \<and>
         map Inr loaded = map (\<lambda>n. load_message env (path_join ?path n))
             (filter (\<lambda>n. \<not> startswith n (str ''.'')) (sort (resource_listdir env ?path)))"
      by simp_all
  }
  {
    assume "\<forall>n \<in> set (resource_listdir env ?path). \<not> startswith n (str ''.'') \<longrightarrow>
        (\<exists>r. load_message env (path_join ?path n) = Inr r)"
    then have "\<forall>n \<in> set (sort (resource_listdir env ?path)). \<not> startswith n (str ''.'') \<longrightarrow>
        (\<exists>r. load_message env (path_join ?path n) = Inr r)"
      by simp
    from load_demo_mailbox_loop_succeeds [OF this, of mbx]
    show "\<exists>mbx''. load_demo_mailbox env name mbx = Inr mbx''"
      by (simp add: load_demo_mailbox_def Let_def)
  }
  {
    assume m: "load_message env msg_path = Inr (msg, recent)"
    note r = load_message_result [OF m]
    from r(1) show "\<exists>ts. float env (fst (readline (snd (readline (resource_stream env msg_path))))) = Inr ts \<and>
            fromtimestamp env ts = Inr (internal_date msg)" .
    from r(2) show "contents msg = snd (readline (snd (readline (resource_stream env msg_path))))" .
    from r(3) show "permanent_flags msg =
        Flag env ` set (split (fst (readline (resource_stream env msg_path)))) - {Recent env}" .
    from r(3) show "Recent env \<notin> permanent_flags msg" by simp
    have "(Recent env \<in> Flag env ` set (split (fst (readline (resource_stream env msg_path)))))
        = (\<exists>t \<in> set (split (fst (readline (resource_stream env msg_path)))).
                  Flag env t = Recent env)"
      by force
    with r(4) show "recent = (\<exists>t \<in> set (split (fst (readline (resource_stream env msg_path)))).
                  Flag env t = Recent env)" by simp
  }
  show "fst (readline (resource_stream env msg_path)) @
     fst (readline (snd (readline (resource_stream env msg_path)))) @
     snd (readline (snd (readline (resource_stream env msg_path))))
     = resource_stream env msg_path"
    by (simp add: readline_append)
next
  assume "float env (fst (readline (snd (readline (resource_stream env msg_path))))) = Inr ts \<and>
    fromtimestamp env ts = Inr dt"
  then show "\<exists>r. load_message env msg_path = Inr r"
    using load_message_succeeds [of env msg_path ts dt] by blast
qed

theorem load_demo_mailbox_files_witness:
  "(\<exists>mbx'. load_demo_mailbox example_env (str ''INBOX'') new_mailbox = Inr mbx' \<and>
       readonly mbx' \<and> length (added mbx') = 1) \<and>
   (\<exists>msg. load_message example_env (str ''demo/INBOX/1'') = Inr (msg, True) \<and>
       contents msg = ''Subject: x'' @ [CHR 0x0A, CHR 0x0A] @ ''body'' \<and>
       permanent_flags msg = {[CHR 0x5C] @ ''Seen''} \<and>
       internal_date msg = 86400)"
proof -
  let ?env = example_env
  let ?path = "path_join (str ''demo'') (str ''INBOX'')"
  let ?file = "str ''demo/INBOX/1''"
  have s: "resource_stream ?env ?file =
      [CHR 0x5C] @ ''Seen '' @ [CHR 0x5C] @ ''Recent'' @ [CHR 0x0A] @
                     ''86400'' @ [CHR 0x0A] @
                     ''Subject: x'' @ [CHR 0x0A, CHR 0x0A] @ ''body''"
    by (simp add: example_env_def)
  have fl: "split (fst (readline (resource_stream ?env ?file)))
      = [[CHR 0x5C] @ ''Seen'', [CHR 0x5C] @ ''Recent'']"
    unfolding s by (simp add: readline_def split_def py_space_def)
  have rest: "snd (readline (snd (readline (resource_stream ?env ?file))))
      = ''Subject: x'' @ [CHR 0x0A, CHR 0x0A] @ ''body''"
    unfolding s by (simp add: readline_def)
  have tl: "fst (readline (snd (readline (resource_stream ?env ?file))))
      = ''86400'' @ [CHR 0x0A]"
    unfolding s by (simp add: readline_def)
  have e: "Flag ?env = (\<lambda>b. b)" "Recent ?env = [CHR 0x5C] @ ''Recent''"
    "float ?env (''86400'' @ [CHR 0x0A]) = Inr 86400" "fromtimestamp ?env = (\<lambda>t. Inr t)"
    by (simp_all add: example_env_def)
  have p: "?path = str ''demo/INBOX''" "path_join (str ''demo/INBOX'') (str ''1'') = ?file"
    by (simp_all add: path_join_def startswith_def endswith_def str_def)
  have ls: "resource_listdir ?env (str ''demo/INBOX'') = [str ''1'', str ''.readonly'', str ''.hidden'']"
    by (simp add: example_env_def)
  have dots: "\<not> startswith (str ''1'') (str ''.'')" "startswith (str ''.readonly'') (str ''.'')"
    "startswith (str ''.hidden'') (str ''.'')"
    by (simp_all add: startswith_def str_def)

  have conv: "float ?env (fst (readline (snd (readline (resource_stream ?env ?file))))) = Inr 86400 \<and>
    fromtimestamp ?env 86400 = Inr 86400"
    unfolding tl e by simp
  note loads = load_demo_mailbox_files [where env = ?env and msg_path = ?file
      and ts = 86400 and dt = 86400, THEN conjunct2, THEN conjunct2, THEN conjunct2,
      THEN conjunct2, THEN mp, OF conv]
  then obtain msg recent where m: "load_message ?env ?file = Inr (msg, recent)"
    by (cases "load_message ?env ?file") auto

  have all: "\<forall>n \<in> set (resource_listdir ?env ?path). \<not> startswith n (str ''.'') \<longrightarrow>
        (\<exists>r. load_message ?env (path_join ?path n) = Inr r)"
    using m by (simp add: p ls dots)
  note returns = load_demo_mailbox_files [where env = ?env and name = "str ''INBOX''"
      and mbx = new_mailbox, THEN conjunct2, THEN conjunct1, THEN mp, OF all]
  then obtain mbx' where l: "load_demo_mailbox ?env (str ''INBOX'') new_mailbox = Inr mbx'"
    by (rule exE)
  note result = load_demo_mailbox_files [where env = ?env and name = "str ''INBOX''"
      and mbx = new_mailbox and mbx' = mbx', THEN conjunct1, THEN mp, OF l]
  from result have "readonly mbx' =
        (readonly (new_mailbox :: (int, bytes) mailbox_data) \<or>
         str ''.readonly'' \<in> set (resource_listdir ?env ?path))"
    by (rule conjunct1)
  then have ro: "readonly mbx'" by (simp add: p ls)
  from result obtain loaded
    where a: "added mbx' = added (new_mailbox :: (int, bytes) mailbox_data) @ loaded"
      and ld: "map Inr loaded =
           map (\<lambda>n. load_message ?env (path_join ?path n))
             (filter (\<lambda>n. \<not> startswith n (str ''.'')) (sort (resource_listdir ?env ?path)))"
    by (elim conjE exE)
  from ld have "length loaded =
      length (filter (\<lambda>n. \<not> startswith n (str ''.'')) (sort (resource_listdir ?env ?path)))"
    by (metis length_map)
  also have "\<dots> = length (filter (\<lambda>n. \<not> startswith n (str ''.''))
      [str ''1'', str ''.readonly'', str ''.hidden''])"
    unfolding p ls by (simp add: filter_sort)
  also have "\<dots> = 1" by (simp add: dots)
  finally have "length (added mbx') = 1" using a by (simp add: new_mailbox_def)
  with l ro have first: "\<exists>mbx'. load_demo_mailbox ?env (str ''INBOX'') new_mailbox = Inr mbx' \<and>
       readonly mbx' \<and> length (added mbx') = 1"
    by blast

  note props = load_demo_mailbox_files [where env = ?env and msg_path = ?file
      and msg = msg and recent = recent, THEN conjunct2, THEN conjunct2, THEN conjunct1,
      THEN mp, OF m]
  note d = props [THEN conjunct1]
  note c = props [THEN conjunct2, THEN conjunct1]
  note f = props [THEN conjunct2, THEN conjunct2, THEN conjunct1]
  note r = props [THEN conjunct2, THEN conjunct2, THEN conjunct2, THEN conjunct2]
  from r have "recent" unfolding fl e by simp
  moreover from c have "contents msg = ''Subject: x'' @ [CHR 0x0A, CHR 0x0A] @ ''body''"
    unfolding rest .
  moreover from f have "permanent_flags msg = {[CHR 0x5C] @ ''Seen''}"
    unfolding fl e by auto
  moreover from d have "internal_date msg = 86400"
    unfolding tl e by auto
  ultimately have "\<exists>msg. load_message ?env ?file = Inr (msg, True) \<and>
       contents msg = ''Subject: x'' @ [CHR 0x0A, CHR 0x0A] @ ''body'' \<and>
       permanent_flags msg = {[CHR 0x5C] @ ''Seen''} \<and>
       internal_date msg = 86400"
    using m by auto
  with first show ?thesis by (rule conjI)
qed

section \<open>Properties of \<^verbatim>\<open>Session.login\<close>\<close>

text \<open>The three checks of \<open>login\<close> and \<open>get_password\<close>: the user is the demo user, the
  configured password is not empty, and the secret check against it succeeds.\<close>

definition credentials_accepted :: "credentials \<Rightarrow> ('dt, 'flag) config \<Rightarrow> bool" where
  "credentials_accepted credentials config =
     (authcid credentials = demo_user config \<and> demo_password config \<noteq> [] \<and>
      check_secret credentials (demo_password config))"

lemma login_rejected:
  "\<not> credentials_accepted credentials config \<Longrightarrow> login env credentials config = Inl InvalidAuth"
  by (auto simp: login_def get_password_def credentials_accepted_def Let_def)

lemma login_accepted:
  "credentials_accepted credentials config \<Longrightarrow>
   login env credentials config =
     (case set_cache config (authcid credentials) of
        Some mailbox_set \<Rightarrow> Inr (Session config mailbox_set, config)
      | None \<Rightarrow>
          (case (if demo_data config then load_demo env new_mailbox_set else Inr new_mailbox_set) of
             Inl e \<Rightarrow> Inl e
           | Inr mailbox_set \<Rightarrow>
               Inr (Session (config\<lparr>set_cache := (set_cache config)(authcid credentials \<mapsto> mailbox_set)\<rparr>)
                      mailbox_set,
                    config\<lparr>set_cache := (set_cache config)(authcid credentials \<mapsto> mailbox_set)\<rparr>)))"
  by (auto simp: login_def get_password_def credentials_accepted_def Let_def
      split: option.split sum.split)

text \<open>
  C9 says that \<open>login\<close> returns a session exactly when the authentication identity is the
  demo user and the secret check against the demo password succeeds. \<open>login\<close> also raises
  \<open>InvalidAuth\<close> on \<open>not password\<close>: with an empty demo password configured, the demo user
  whose secret check against the empty password succeeds is refused.
\<close>

theorem login_empty_password_counterexample:
  "authcid \<lparr>authcid = str ''demouser'', check_secret = (\<lambda>secret. secret = [])\<rparr>
     = demo_user \<lparr>demo_user = str ''demouser'', demo_password = [], demo_data = False,
                  set_cache = Map.empty\<rparr> \<and>
   check_secret \<lparr>authcid = str ''demouser'', check_secret = (\<lambda>secret. secret = [])\<rparr>
     (demo_password \<lparr>demo_user = str ''demouser'', demo_password = [], demo_data = False,
                     set_cache = Map.empty\<rparr>) \<and>
   login example_env \<lparr>authcid = str ''demouser'', check_secret = (\<lambda>secret. secret = [])\<rparr>
     \<lparr>demo_user = str ''demouser'', demo_password = [], demo_data = False, set_cache = Map.empty\<rparr>
     = Inl InvalidAuth"
  by (simp add: login_def get_password_def)

text \<open>
  C9, amended. \<open>login\<close> fails with \<open>InvalidAuth\<close> for any other user, for a failing
  secret check and for an empty configured password. It returns a session exactly when
  the authentication identity is the demo user, the configured demo password is not
  empty, the secret check against it succeeds and, where the user has no cached mailbox
  set and the demo data are to be loaded, loading them does not fail. The session
  returned holds the mailbox set that the cache then has for the user.
\<close>

theorem login_checks_credentials:
  "(authcid credentials \<noteq> demo_user config \<or>
    \<not> check_secret credentials (demo_password config) \<or>
    demo_password config = [] \<longrightarrow>
      login env credentials config = Inl InvalidAuth) \<and>
   ((\<exists>r. login env credentials config = Inr r) \<longleftrightarrow>
      authcid credentials = demo_user config \<and> demo_password config \<noteq> [] \<and>
      check_secret credentials (demo_password config) \<and>
      (set_cache config (authcid credentials) = None \<and> demo_data config \<longrightarrow>
         (\<exists>mailbox_set. load_demo env new_mailbox_set = Inr mailbox_set))) \<and>
   (\<forall>session config'. login env credentials config = Inr (session, config') \<longrightarrow>
      (\<exists>mailbox_set. session = Session config' mailbox_set \<and>
         set_cache config' (authcid credentials) = Some mailbox_set \<and>
         demo_user config' = demo_user config \<and> demo_password config' = demo_password config))"
proof (intro conjI allI impI)
  assume "authcid credentials \<noteq> demo_user config \<or>
    \<not> check_secret credentials (demo_password config) \<or> demo_password config = []"
  then have "\<not> credentials_accepted credentials config"
    by (auto simp: credentials_accepted_def)
  then show "login env credentials config = Inl InvalidAuth" by (rule login_rejected)
next
  show "(\<exists>r. login env credentials config = Inr r) \<longleftrightarrow>
      authcid credentials = demo_user config \<and> demo_password config \<noteq> [] \<and>
      check_secret credentials (demo_password config) \<and>
      (set_cache config (authcid credentials) = None \<and> demo_data config \<longrightarrow>
         (\<exists>mailbox_set. load_demo env new_mailbox_set = Inr mailbox_set))"
  proof (cases "credentials_accepted credentials config")
    case False
    then have "login env credentials config = Inl InvalidAuth" by (rule login_rejected)
    with False show ?thesis by (auto simp: credentials_accepted_def)
  next
    case True
    then have a: "authcid credentials = demo_user config \<and> demo_password config \<noteq> [] \<and>
      check_secret credentials (demo_password config)"
      by (simp add: credentials_accepted_def)
    show ?thesis
      unfolding login_accepted [OF True]
      using a by (auto split: option.splits sum.splits)
  qed
next
  fix session config'
  assume l: "login env credentials config = Inr (session, config')"
  then have "credentials_accepted credentials config"
    using login_rejected [of credentials config env] by auto
  from l [unfolded login_accepted [OF this]]
  show "\<exists>mailbox_set. session = Session config' mailbox_set \<and>
         set_cache config' (authcid credentials) = Some mailbox_set \<and>
         demo_user config' = demo_user config \<and> demo_password config' = demo_password config"
    by (auto split: option.splits sum.splits if_splits)
qed

theorem login_checks_credentials_witness:
  "(\<exists>r. login example_env \<lparr>authcid = str ''demouser'', check_secret = (\<lambda>secret. secret = str ''demopass'')\<rparr>
      \<lparr>demo_user = str ''demouser'', demo_password = str ''demopass'', demo_data = False,
        set_cache = Map.empty\<rparr> = Inr r) \<and>
   login example_env \<lparr>authcid = str ''demouser'', check_secret = (\<lambda>secret. secret = str ''other'')\<rparr>
      \<lparr>demo_user = str ''demouser'', demo_password = str ''demopass'', demo_data = False,
        set_cache = Map.empty\<rparr> = Inl InvalidAuth \<and>
   login example_env \<lparr>authcid = str ''someone'', check_secret = (\<lambda>secret. secret = str ''demopass'')\<rparr>
      \<lparr>demo_user = str ''demouser'', demo_password = str ''demopass'', demo_data = False,
        set_cache = Map.empty\<rparr> = Inl InvalidAuth"
proof (intro conjI)
  let ?cfg = "\<lparr>demo_user = str ''demouser'', demo_password = str ''demopass'', demo_data = False,
        set_cache = Map.empty\<rparr> :: (int, bytes) config"
  let ?good = "\<lparr>authcid = str ''demouser'', check_secret = (\<lambda>secret. secret = str ''demopass'')\<rparr>"
  have "authcid ?good = demo_user ?cfg \<and> demo_password ?cfg \<noteq> [] \<and>
      check_secret ?good (demo_password ?cfg) \<and>
      (set_cache ?cfg (authcid ?good) = None \<and> demo_data ?cfg \<longrightarrow>
         (\<exists>mailbox_set. load_demo example_env new_mailbox_set = Inr mailbox_set))"
    by (simp add: str_def)
  with login_checks_credentials [of ?good ?cfg example_env]
  show "\<exists>r. login example_env ?good ?cfg = Inr r" by blast
  let ?bad = "\<lparr>authcid = str ''demouser'', check_secret = (\<lambda>secret. secret = str ''other'')\<rparr>"
  have "\<not> check_secret ?bad (demo_password ?cfg)" by (simp add: str_def)
  with login_checks_credentials [of ?bad ?cfg example_env]
  show "login example_env ?bad ?cfg = Inl InvalidAuth" by blast
  let ?who = "\<lparr>authcid = str ''someone'', check_secret = (\<lambda>secret. secret = str ''demopass'')\<rparr>"
  have "authcid ?who \<noteq> demo_user ?cfg" by (simp add: str_def)
  with login_checks_credentials [of ?who ?cfg example_env]
  show "login example_env ?who ?cfg = Inl InvalidAuth" by blast
qed


section \<open>Properties of the demo message\<close>

text \<open>
  C10. \<open>fetch_internal_date\<close> of a demo message gives the reading of the clock at the call:
  the result is the same for any two messages, whatever they were built from, and two
  calls on one message give different results when the clock has moved between them.
\<close>

theorem fetch_internal_date_is_clock:
  "fetch_internal_date self now = DateTime now \<and>
   fetch_internal_date (demo_message_init seq1 uid1 flags1 data1) now
     = fetch_internal_date (demo_message_init seq2 uid2 flags2 data2) now \<and>
   (fetch_internal_date self now1 = fetch_internal_date self now2) = (now1 = now2)"
  by (simp add: fetch_internal_date_def)

end
